theory Spec2Isabelle
  imports Main "HOL-Library.Word"
begin

unbundle bit_operations_syntax

section \<open>Machine model\<close>

text \<open>
  Unsigned machine integers are words. The \<^verbatim>\<open>int64_t\<close> variables of the query engine
  (\<^verbatim>\<open>min\<close>, \<^verbatim>\<open>max\<close>, \<^verbatim>\<open>mid\<close>) are mathematical integers: a conversion from
  \<^verbatim>\<open>uint64_t\<close> reinterprets the bits (\<open>sint\<close>), and signed overflow, which C++ leaves
  undefined, does not occur on the runs the theorems are about.

  A mapped file is a list of bytes and a pointer into it is an offset. The host is
  little-endian, as the file formats are.
\<close>

type_synonym u8 = "8 word"
type_synonym u32 = "32 word"
type_synonym u64 = "64 word"
type_synonym region = "u8 list"

text \<open>
  What a call does besides returning: \<^verbatim>\<open>errx(code, msg)\<close> prints the message and
  terminates the process with the exit code; a null dereference, an access outside the
  mapped region (or outside a local array) and a shift by at least the width of the
  shifted type are undefined behaviour.
\<close>

datatype ub = NullPointer | OutOfBounds | ShiftWidth

datatype 'a outcome = Returns 'a | Errx nat string | Undefined ub

definition obind :: "'a outcome \<Rightarrow> ('a \<Rightarrow> 'b outcome) \<Rightarrow> 'b outcome" where
  "obind m f = (case m of Returns x \<Rightarrow> f x | Errx c msg \<Rightarrow> Errx c msg | Undefined u \<Rightarrow> Undefined u)"

definition returns_to_caller :: "'a outcome \<Rightarrow> bool" where
  "returns_to_caller m = (case m of Returns x \<Rightarrow> True | Errx c msg \<Rightarrow> False | Undefined u \<Rightarrow> False)"

text \<open>The exit codes of \<^verbatim>\<open>sysexits.h\<close>.\<close>

definition EX_DATAERR :: nat where "EX_DATAERR = 65"
definition EX_SOFTWARE :: nat where "EX_SOFTWARE = 70"

text \<open>
  \<^verbatim>\<open>memcpy\<close> (or \<^verbatim>\<open>FAST_COPY\<close>) of \<open>n\<close> bytes at offset \<open>off\<close> into a zeroed
  \<^verbatim>\<open>uint64_t\<close>: the bytes are the low-order bytes of the result. It is defined when the
  destination holds \<open>n\<close> bytes and the source lies in the region.
\<close>

definition load_le :: "region \<Rightarrow> nat \<Rightarrow> nat \<Rightarrow> u64 option" where
  "load_le mem off n =
     (if n \<le> 8 \<and> off + n \<le> length mem
      then Some (horner_sum ucast 256 (take n (drop off mem)))
      else None)"

definition store_le :: "u64 \<Rightarrow> region" where
  "store_le w = map (\<lambda>i. ucast (drop_bit (8 * i) w)) [0..<8]"

text \<open>
  \<^verbatim>\<open>strncmp(ptr, s, n) != 0\<close> for a string literal \<open>s\<close>: bytes are compared from the
  left until they differ, a NUL is met, or \<open>n\<close> bytes are done.
\<close>

fun strncmp :: "region \<Rightarrow> u8 list \<Rightarrow> nat \<Rightarrow> nat \<Rightarrow> bool outcome" where
  "strncmp mem s i 0 = Returns False"
| "strncmp mem s i (Suc n) =
     (if length mem \<le> i then Undefined OutOfBounds
      else let c1 = mem ! i; c2 = (if i < length s then s ! i else 0) in
        if c1 \<noteq> c2 then Returns True
        else if c1 = 0 then Returns False
        else strncmp mem s (Suc i) n)"

definition c_string :: "string \<Rightarrow> u8 list" where
  "c_string s = map of_char s"

section \<open>krakendb.hpp, krakendb.cpp\<close>

definition INDEX2_XOR_MASK :: u64 where
  "INDEX2_XOR_MASK = 0xe37e28c4271b5a2d"

definition DATABASE_FILE_TYPE :: "u8 list" where
  "DATABASE_FILE_TYPE = c_string ''JFLISTDN''"

definition KRAKEN_INDEX_STRING :: "u8 list" where
  "KRAKEN_INDEX_STRING = c_string ''KRAKIDX''"

definition KRAKEN_INDEX2_STRING :: "u8 list" where
  "KRAKEN_INDEX2_STRING = c_string ''KRAKIX2''"

text \<open>
  The two classes. A pointer field that may be \<^verbatim>\<open>NULL\<close> is an option. The fields
  \<^verbatim>\<open>fptr\<close> and \<^verbatim>\<open>nt\<close> of \<^verbatim>\<open>KrakenDBIndex\<close> are \<open>idx_fptr\<close> and \<open>idx_nt\<close>, the field
  \<^verbatim>\<open>k\<close> of \<^verbatim>\<open>KrakenDB\<close> is \<open>db_k\<close>.
\<close>

record KrakenDBIndex =
  idx_type :: u8
  idx_fptr :: "region option"
  idx_nt :: u8

record KrakenDB =
  fptr :: "region option"
  index_ptr :: "KrakenDBIndex option"
  db_k :: u8
  key_bits :: u64
  key_len :: u64
  val_len :: u64
  key_ct :: u64

subsection \<open>Constructors and accessors\<close>

definition KrakenDB_null :: KrakenDB where
  "KrakenDB_null = \<lparr>fptr = None, index_ptr = None, db_k = 0, key_bits = 0,
     key_len = 0, val_len = 0, key_ct = 0\<rparr>"

definition KrakenDB_ctor :: "region \<Rightarrow> KrakenDB outcome" where
  "KrakenDB_ctor ptr =
     obind (strncmp ptr DATABASE_FILE_TYPE 0 (length DATABASE_FILE_TYPE)) (\<lambda>differs.
       if differs then Errx EX_DATAERR ''database in improper format''
       else case (load_le ptr 8 8, load_le ptr 16 8, load_le ptr 48 8) of
         (Some kb, Some vl, Some kc) \<Rightarrow>
           if vl \<noteq> 4 then Errx EX_DATAERR ''can only handle 4 byte DB values''
           else Returns \<lparr>fptr = Some ptr, index_ptr = None, db_k = ucast (kb div 2),
                  key_bits = kb,
                  key_len = kb div 8 + (if kb mod 8 \<noteq> 0 then 1 else 0),
                  val_len = vl, key_ct = kc\<rparr>
       | _ \<Rightarrow> Undefined OutOfBounds)"

definition set_index :: "KrakenDB \<Rightarrow> KrakenDBIndex option \<Rightarrow> KrakenDB" where
  "set_index db i_ptr = db\<lparr>index_ptr := i_ptr\<rparr>"

definition pair_size :: "KrakenDB \<Rightarrow> u64" where
  "pair_size db = key_len db + val_len db"

definition header_size :: "KrakenDB \<Rightarrow> u64" where
  "header_size db = 72 + 2 * (4 + 8 * key_bits db)"

definition get_pair_ptr :: "KrakenDB \<Rightarrow> nat option" where
  "get_pair_ptr db = (case fptr db of None \<Rightarrow> None | Some mem \<Rightarrow> Some (unat (header_size db)))"

definition KrakenDBIndex_null :: KrakenDBIndex where
  "KrakenDBIndex_null = \<lparr>idx_type = 1, idx_fptr = None, idx_nt = 0\<rparr>"

definition KrakenDBIndex_ctor :: "region \<Rightarrow> KrakenDBIndex outcome" where
  "KrakenDBIndex_ctor ptr =
     obind (strncmp ptr KRAKEN_INDEX_STRING 0 (length KRAKEN_INDEX_STRING)) (\<lambda>not_v1.
     obind (if not_v1
            then obind (strncmp ptr KRAKEN_INDEX2_STRING 0 (length KRAKEN_INDEX2_STRING)) (\<lambda>not_v2.
                   if not_v2 then Errx EX_DATAERR ''illegal Kraken DB index format''
                   else Returns 2)
            else Returns 1) (\<lambda>ty.
       case load_le ptr (length KRAKEN_INDEX_STRING) 1 of
         None \<Rightarrow> Undefined OutOfBounds
       | Some n \<Rightarrow> Returns \<lparr>idx_type = ty, idx_fptr = Some ptr, idx_nt = ucast n\<rparr>))"

text \<open>\<^verbatim>\<open>get_array()\<close> is the region from byte \<open>strlen(KRAKEN_INDEX_STRING) + 1\<close> on.\<close>

definition get_array :: nat where
  "get_array = length KRAKEN_INDEX_STRING + 1"

text \<open>
  \<^verbatim>\<open>KrakenDBIndex::at\<close>; \<open>testing\<close> says whether the build defines \<^verbatim>\<open>TESTING\<close>.
\<close>

definition at :: "bool \<Rightarrow> KrakenDBIndex \<Rightarrow> u64 \<Rightarrow> u64 outcome" where
  "at testing idx i =
     (if testing \<and> 64 \<le> unat (idx_nt idx) * 2 then Undefined ShiftWidth
      else if testing \<and> 1 + push_bit (unat (idx_nt idx) * 2) 1 < i
      then Errx EX_SOFTWARE ''KrakenDBIndex::at() called with illegal index''
      else case idx_fptr idx of
        None \<Rightarrow> Undefined NullPointer
      | Some mem \<Rightarrow>
          (case load_le mem (get_array + 8 * unat i) 8 of
             None \<Rightarrow> Undefined OutOfBounds
           | Some v \<Rightarrow> Returns v))"

subsection \<open>K-mer primitives\<close>

text \<open>
  The shift of the last line is by \<open>8 * sizeof(kmer) - (n << 1)\<close>, computed in
  \<^verbatim>\<open>size_t\<close>; C++ defines it for \<open>1 \<le> n \<le> 32\<close> only.
\<close>

definition reverse_complement :: "u64 \<Rightarrow> u8 \<Rightarrow> u64" where
  "reverse_complement kmer0 n =
    (let kmer = (drop_bit 2 kmer0 AND 0x3333333333333333) OR push_bit 2 (kmer0 AND 0x3333333333333333);
         kmer = (drop_bit 4 kmer AND 0x0F0F0F0F0F0F0F0F) OR push_bit 4 (kmer AND 0x0F0F0F0F0F0F0F0F);
         kmer = (drop_bit 8 kmer AND 0x00FF00FF00FF00FF) OR push_bit 8 (kmer AND 0x00FF00FF00FF00FF);
         kmer = (drop_bit 16 kmer AND 0x0000FFFF0000FFFF) OR push_bit 16 (kmer AND 0x0000FFFF0000FFFF);
         kmer = drop_bit 32 kmer OR push_bit 32 kmer
     in drop_bit (unat (8 * 8 - push_bit 1 (ucast n :: u64))) ((- 1) - kmer))"

definition canonical_representation :: "u64 \<Rightarrow> u8 \<Rightarrow> u64" where
  "canonical_representation kmer n =
    (let revcom = reverse_complement kmer n in if kmer < revcom then kmer else revcom)"

text \<open>The overloads that take the length from the database.\<close>

definition reverse_complement_k :: "KrakenDB \<Rightarrow> u64 \<Rightarrow> u64" where
  "reverse_complement_k db kmer = reverse_complement kmer (db_k db)"

definition canonical_representation_k :: "KrakenDB \<Rightarrow> u64 \<Rightarrow> u64" where
  "canonical_representation_k db kmer = canonical_representation kmer (db_k db)"

text \<open>
  The loop of \<^verbatim>\<open>bin_key\<close>, run \<open>c\<close> more times. Both overloads have the same body;
  they differ in where \<open>nt\<close> and \<open>xor_mask\<close> come from. \<^verbatim>\<open>1 << (nt * 2)\<close> shifts a 32-bit
  \<^verbatim>\<open>int\<close>, which is defined up to \<open>nt = 15\<close>, and with \<open>nt = 0\<close> the loop calls
  \<^verbatim>\<open>reverse_complement\<close> with a shift by 64.
\<close>

fun bin_key_loop :: "nat \<Rightarrow> u8 \<Rightarrow> u64 \<Rightarrow> u64 \<Rightarrow> u64 \<Rightarrow> u64 \<Rightarrow> u64" where
  "bin_key_loop 0 nt xor_mask mask' kmer min_bin_key = min_bin_key"
| "bin_key_loop (Suc c) nt xor_mask mask' kmer min_bin_key =
     (let temp_bin_key = xor_mask XOR canonical_representation (kmer AND mask') nt
      in bin_key_loop c nt xor_mask mask' (drop_bit 2 kmer)
           (if temp_bin_key < min_bin_key then temp_bin_key else min_bin_key))"

definition bin_key_body :: "u64 \<Rightarrow> u8 \<Rightarrow> u64 \<Rightarrow> u64 \<Rightarrow> u64 outcome" where
  "bin_key_body kbits nt xor_mask0 kmer =
     (if nt = 0 \<or> 15 < nt then Undefined ShiftWidth
      else let mask' = push_bit (unat nt * 2) 1 - 1;
               xor_mask = xor_mask0 AND mask'
           in Returns (bin_key_loop (unat (kbits div 2 - ucast nt + 1)) nt xor_mask mask' kmer (NOT 0)))"

definition bin_key_nt :: "KrakenDB \<Rightarrow> u64 \<Rightarrow> u64 \<Rightarrow> u64 outcome" where
  "bin_key_nt db kmer idx_nt' = bin_key_body (key_bits db) (ucast idx_nt') INDEX2_XOR_MASK kmer"

definition bin_key :: "KrakenDB \<Rightarrow> u64 \<Rightarrow> u64 outcome" where
  "bin_key db kmer =
     (case index_ptr db of
        None \<Rightarrow> Undefined NullPointer
      | Some idx \<Rightarrow>
          bin_key_body (key_bits db) (idx_nt idx)
            (if idx_type idx = 1 then 0 else INDEX2_XOR_MASK) kmer)"


subsection \<open>Query engine\<close>

text \<open>
  \<^verbatim>\<open>ptr + pair_sz * mid\<close>: the product is computed in \<^verbatim>\<open>size_t\<close>, so \<open>mid\<close> is
  converted to unsigned and the product wraps.
\<close>

definition pair_ptr :: "KrakenDB \<Rightarrow> nat option \<Rightarrow> int \<Rightarrow> nat option" where
  "pair_ptr db ptr mid = map_option (\<lambda>p. p + unat (pair_size db * word_of_int mid)) ptr"

text \<open>The value returned on a hit: \<^verbatim>\<open>(uint32_t *) (ptr + pair_sz * mid + key_len)\<close>.\<close>

definition value_ptr :: "KrakenDB \<Rightarrow> nat option \<Rightarrow> int \<Rightarrow> nat option" where
  "value_ptr db ptr mid = map_option (\<lambda>p. p + unat (key_len db)) (pair_ptr db ptr mid)"

text \<open>
  The three lines that read the key of pair \<open>mid\<close>: \<^verbatim>\<open>comp_kmer = 0\<close>, \<^verbatim>\<open>FAST_COPY\<close> of
  \<open>key_len\<close> bytes, and the trim \<^verbatim>\<open>comp_kmer &= (1ull << key_bits) - 1\<close>.
\<close>

definition load_comp_kmer :: "KrakenDB \<Rightarrow> nat option \<Rightarrow> int \<Rightarrow> u64 outcome" where
  "load_comp_kmer db ptr mid =
     (case (pair_ptr db ptr mid, fptr db) of
        (Some p, Some mem) \<Rightarrow>
          (case load_le mem p (unat (key_len db)) of
             None \<Rightarrow> Undefined OutOfBounds
           | Some comp_kmer \<Rightarrow>
               if 64 \<le> key_bits db then Undefined ShiftWidth
               else Returns (comp_kmer AND (push_bit (unat (key_bits db)) 1 - 1)))
      | _ \<Rightarrow> Undefined NullPointer)"

text \<open>
  A loop of \<^verbatim>\<open>kmer_query\<close> either executes a \<^verbatim>\<open>return\<close> or falls through with its
  variables.
\<close>

datatype ('a, 'b) loop_exit = Return 'a | Fallthrough 'b

text \<open>
  The binary search with large window. In the loop \<open>max - min\<close> is at least 15, so the
  truncating division of C++ is \<open>div\<close>.
\<close>

function binary_search ::
  "KrakenDB \<Rightarrow> nat option \<Rightarrow> u64 \<Rightarrow> int \<Rightarrow> int \<Rightarrow> (nat option, int \<times> int) loop_exit outcome" where
  "binary_search db ptr kmer min' max' =
     (if min' + 15 \<le> max' then
        (let mid = min' + (max' - min') div 2 in
         case load_comp_kmer db ptr mid of
           Returns comp_kmer \<Rightarrow>
             if comp_kmer < kmer then binary_search db ptr kmer (mid + 1) max'
             else if kmer < comp_kmer then binary_search db ptr kmer min' (mid - 1)
             else Returns (Return (value_ptr db ptr mid))
         | Errx c msg \<Rightarrow> Errx c msg
         | Undefined u \<Rightarrow> Undefined u)
      else Returns (Fallthrough (min', max')))"
  by pat_completeness auto
termination
  by (relation "measure (\<lambda>(db, ptr, kmer, min', max'). nat (max' - min'))") auto

text \<open>The linear search once the window shrinks.\<close>

function linear_search ::
  "KrakenDB \<Rightarrow> nat option \<Rightarrow> u64 \<Rightarrow> int \<Rightarrow> int \<Rightarrow> (nat option, unit) loop_exit outcome" where
  "linear_search db ptr kmer mid max' =
     (if mid \<le> max' then
        (case load_comp_kmer db ptr mid of
           Returns comp_kmer \<Rightarrow>
             if kmer = comp_kmer then Returns (Return (value_ptr db ptr mid))
             else linear_search db ptr kmer (mid + 1) max'
         | Errx c msg \<Rightarrow> Errx c msg
         | Undefined u \<Rightarrow> Undefined u)
      else Returns (Fallthrough ()))"
  by pat_completeness auto
termination
  by (relation "measure (\<lambda>(db, ptr, kmer, mid, max'). nat (max' + 1 - mid))") auto

definition hybrid_search ::
  "KrakenDB \<Rightarrow> nat option \<Rightarrow> u64 \<Rightarrow> int \<Rightarrow> int \<Rightarrow> (nat option, unit) loop_exit outcome" where
  "hybrid_search db ptr kmer min' max' =
     obind (binary_search db ptr kmer min' max') (\<lambda>e.
       case e of
         Return answer \<Rightarrow> Returns (Return answer)
       | Fallthrough (min'', max'') \<Rightarrow> linear_search db ptr kmer min'' max'')"

text \<open>
  \<^verbatim>\<open>min = index_ptr->at(b_key); max = index_ptr->at(b_key + 1) - 1;\<close> The subtraction is
  unsigned; the assignments convert to \<^verbatim>\<open>int64_t\<close>.
\<close>

definition index_range :: "bool \<Rightarrow> KrakenDB \<Rightarrow> u64 \<Rightarrow> (int \<times> int) outcome" where
  "index_range testing db b_key =
     (case index_ptr db of
        None \<Rightarrow> Undefined NullPointer
      | Some idx \<Rightarrow>
          obind (at testing idx b_key) (\<lambda>lo.
          obind (at testing idx (b_key + 1)) (\<lambda>hi.
            Returns (sint lo, sint (hi - 1)))))"

text \<open>
  The first block of \<^verbatim>\<open>kmer_query\<close> (``use provided values if they exist and are
  valid''): it yields \<open>b_key\<close>, \<open>min\<close>, \<open>max\<close> and the three cells the pointer
  parameters point to. A pointer parameter is \<open>None\<close> when it is \<^verbatim>\<open>NULL\<close> and holds
  the value of its cell otherwise.
\<close>

definition window_init ::
  "bool \<Rightarrow> KrakenDB \<Rightarrow> u64 \<Rightarrow> u64 option \<Rightarrow> int option \<Rightarrow> int option \<Rightarrow> bool
   \<Rightarrow> (u64 \<times> int \<times> int \<times> u64 option \<times> int option \<times> int option) outcome" where
  "window_init testing db kmer last_bin_key min_pos max_pos retry_on_failure =
     obind (if retry_on_failure
            then (case (min_pos, max_pos) of
                    (Some mn, Some mx) \<Rightarrow> Returns (mn \<le> mx)
                  | _ \<Rightarrow> Undefined NullPointer)
            else Returns False) (\<lambda>valid.
       if valid then
         (case (last_bin_key, min_pos, max_pos) of
            (Some b_key, Some mn, Some mx) \<Rightarrow> Returns (b_key, mn, mx, last_bin_key, min_pos, max_pos)
          | _ \<Rightarrow> Undefined NullPointer)
       else
         obind (bin_key db kmer) (\<lambda>b_key.
         obind (index_range testing db b_key) (\<lambda>(mn, mx).
           if retry_on_failure then
             (case (last_bin_key, min_pos, max_pos) of
                (Some _, Some _, Some _) \<Rightarrow> Returns (b_key, mn, mx, Some b_key, Some mn, Some mx)
              | _ \<Rightarrow> Undefined NullPointer)
           else Returns (b_key, mn, mx, last_bin_key, min_pos, max_pos))))"

text \<open>
  \<^verbatim>\<open>kmer_query\<close> with five parameters. The result is the returned pointer (\<open>None\<close> for
  \<^verbatim>\<open>NULL\<close>) and the cells of the three pointer parameters after the call. The
  recursive call gets the addresses of the local variables \<open>b_key\<close>, \<open>min\<close>, \<open>max\<close>.
\<close>

function kmer_query ::
  "bool \<Rightarrow> KrakenDB \<Rightarrow> u64 \<Rightarrow> u64 option \<Rightarrow> int option \<Rightarrow> int option \<Rightarrow> bool
   \<Rightarrow> (nat option \<times> u64 option \<times> int option \<times> int option) outcome" where
  "kmer_query testing db kmer last_bin_key0 min_pos0 max_pos0 retry_on_failure =
     (case window_init testing db kmer last_bin_key0 min_pos0 max_pos0 retry_on_failure of
        Errx c msg \<Rightarrow> Errx c msg
      | Undefined u \<Rightarrow> Undefined u
      | Returns (b_key0, min0, max0, last_bin_key, min_pos, max_pos) \<Rightarrow>
         (case hybrid_search db (get_pair_ptr db) kmer min0 max0 of
            Errx c msg \<Rightarrow> Errx c msg
          | Undefined u \<Rightarrow> Undefined u
          | Returns (Return answer) \<Rightarrow> Returns (answer, last_bin_key, min_pos, max_pos)
          | Returns (Fallthrough _) \<Rightarrow>
              if retry_on_failure then
                (case bin_key db kmer of
                   Errx c msg \<Rightarrow> Errx c msg
                 | Undefined u \<Rightarrow> Undefined u
                 | Returns b_key \<Rightarrow>
                    (case last_bin_key of
                       None \<Rightarrow> Undefined NullPointer
                     | Some last_key \<Rightarrow>
                         if b_key = last_key then Returns (None, last_bin_key, min_pos, max_pos)
                         else
                           (case index_range testing db b_key of
                              Errx c msg \<Rightarrow> Errx c msg
                            | Undefined u \<Rightarrow> Undefined u
                            | Returns (min', max') \<Rightarrow>
                               (case kmer_query testing db kmer (Some b_key) (Some min') (Some max') False of
                                  Errx c msg \<Rightarrow> Errx c msg
                                | Undefined u \<Rightarrow> Undefined u
                                | Returns (answer, b_key_cell, min_cell, max_cell) \<Rightarrow>
                                    (case last_bin_key of
                                       None \<Rightarrow> Returns (answer, last_bin_key, min_pos, max_pos)
                                     | Some _ \<Rightarrow>
                                        (case (min_pos, max_pos) of
                                           (Some _, Some _) \<Rightarrow> Returns (answer, b_key_cell, min_cell, max_cell)
                                         | _ \<Rightarrow> Undefined NullPointer))))))
              else Returns (None, last_bin_key, min_pos, max_pos)))"
  by pat_completeness auto
termination
  by (relation "measure (\<lambda>(testing, db, kmer, l, mn, mx, retry). if retry then 1 else 0)") auto

text \<open>\<^verbatim>\<open>kmer_query\<close> with one parameter.\<close>

definition kmer_query1 :: "bool \<Rightarrow> KrakenDB \<Rightarrow> u64 \<Rightarrow> nat option outcome" where
  "kmer_query1 testing db kmer =
     obind (kmer_query testing db kmer None None None False) (\<lambda>(answer, cells). Returns answer)"

subsection \<open>Index builder\<close>

text \<open>
  The counting loop of \<^verbatim>\<open>make_index\<close>, from pair \<open>i\<close> on, with \<open>c\<close> pairs left. The
  increments are atomic, so the counts of a parallel run are those of the sequential one.
\<close>

fun count_bins :: "KrakenDB \<Rightarrow> u8 \<Rightarrow> nat \<Rightarrow> nat \<Rightarrow> u64 list \<Rightarrow> u64 list outcome" where
  "count_bins db nt 0 i bin_counts = Returns bin_counts"
| "count_bins db nt (Suc c) i bin_counts =
     (case (get_pair_ptr db, fptr db) of
        (Some ptr, Some mem) \<Rightarrow>
          (case load_le mem (ptr + unat (word_of_nat i * pair_size db)) (unat (key_len db)) of
             None \<Rightarrow> Undefined OutOfBounds
           | Some kmer \<Rightarrow>
              (case bin_key_nt db kmer (ucast nt) of
                 Returns b_key \<Rightarrow>
                   if unat b_key < length bin_counts
                   then count_bins db nt c (Suc i)
                          (bin_counts[unat b_key := bin_counts ! unat b_key + 1])
                   else Undefined OutOfBounds
               | Errx code msg \<Rightarrow> Errx code msg
               | Undefined u \<Rightarrow> Undefined u))
      | _ \<Rightarrow> Undefined NullPointer)"

text \<open>
  \<^verbatim>\<open>bin_offsets[0] = 0; bin_offsets[i] = bin_offsets[i-1] + bin_counts[i-1]\<close>, started
  with \<open>acc\<close>.
\<close>

fun prefix_sums :: "u64 \<Rightarrow> u64 list \<Rightarrow> u64 list" where
  "prefix_sums acc [] = [acc]"
| "prefix_sums acc (c # cs) = acc # prefix_sums (acc + c) cs"

text \<open>The offset array that \<^verbatim>\<open>make_index\<close> computes, and the file it writes.\<close>

definition bin_offsets :: "KrakenDB \<Rightarrow> u8 \<Rightarrow> u64 list outcome" where
  "bin_offsets db nt =
     (if 64 \<le> unat nt * 2 then Undefined ShiftWidth
      else let entries = (push_bit (unat nt * 2) 1 :: u64) in
        obind (count_bins db nt (unat (key_ct db)) 0 (replicate (unat entries) 0)) (\<lambda>bin_counts.
          Returns (prefix_sums 0 bin_counts)))"

definition make_index :: "KrakenDB \<Rightarrow> u8 \<Rightarrow> region outcome" where
  "make_index db nt =
     obind (bin_offsets db nt) (\<lambda>offsets.
       Returns (KRAKEN_INDEX2_STRING @ [nt] @ concat (map store_le offsets)))"

section \<open>test\_kraken.cpp\<close>

text \<open>\<^verbatim>\<open>string_to_kmer\<close>, continued from the k-mer built so far.\<close>

fun string_to_kmer_from :: "u64 \<Rightarrow> string \<Rightarrow> u64 outcome" where
  "string_to_kmer_from kmer [] = Returns kmer"
| "string_to_kmer_from kmer (c # cs) =
     (let kmer = push_bit 2 kmer in
      if c = CHR ''A'' \<or> c = CHR ''a'' then string_to_kmer_from (kmer OR 0) cs
      else if c = CHR ''C'' \<or> c = CHR ''c'' then string_to_kmer_from (kmer OR 1) cs
      else if c = CHR ''G'' \<or> c = CHR ''g'' then string_to_kmer_from (kmer OR 2) cs
      else if c = CHR ''T'' \<or> c = CHR ''t'' then string_to_kmer_from (kmer OR 3) cs
      else Errx 1 ''Invalid character in DNA string'')"

definition string_to_kmer :: "string \<Rightarrow> u64 outcome" where
  "string_to_kmer dna_str = string_to_kmer_from 0 dna_str"

section \<open>The minimizer as the specification words it\<close>

text \<open>
  For each of the \<open>k - nt + 1\<close> substrings of \<open>nt\<close> bases (the low \<open>2 nt\<close> bits after
  \<open>i\<close> right-shifts by 2): the effective XOR mask XOR the canonical form of the
  substring. The bin key is specified as the minimum of this set.
\<close>

definition minimizers :: "u64 \<Rightarrow> u8 \<Rightarrow> u64 \<Rightarrow> u64 \<Rightarrow> u64 set" where
  "minimizers kbits nt xor_mask kmer =
     (\<lambda>i. (xor_mask AND mask (2 * unat nt))
            XOR canonical_representation (drop_bit (2 * i) kmer AND mask (2 * unat nt)) nt)
       ` {0 .. unat (kbits div 2) - unat nt}"

section \<open>The data model and its invariants\<close>

text \<open>
  The pair array as the data model describes it: pair \<open>i\<close> starts \<open>i\<close> strides after the
  header; its key is the first \<open>key_len\<close> bytes, little-endian, of which \<open>key_bits\<close> bits
  count; its value is the next 4 bytes.
\<close>

definition pair_offset :: "KrakenDB \<Rightarrow> nat \<Rightarrow> nat" where
  "pair_offset db i = unat (header_size db) + i * unat (pair_size db)"

definition stored_key :: "KrakenDB \<Rightarrow> nat \<Rightarrow> u64" where
  "stored_key db i =
     (case fptr db of
        None \<Rightarrow> 0
      | Some mem \<Rightarrow>
          (case load_le mem (pair_offset db i) (unat (key_len db)) of
             None \<Rightarrow> 0
           | Some raw \<Rightarrow> take_bit (unat (key_bits db)) raw))"

definition deref_u32 :: "KrakenDB \<Rightarrow> nat \<Rightarrow> u32 option" where
  "deref_u32 db p =
     (case fptr db of None \<Rightarrow> None | Some mem \<Rightarrow> map_option ucast (load_le mem p 4))"

definition stored_value :: "KrakenDB \<Rightarrow> nat \<Rightarrow> u32 option" where
  "stored_value db i = deref_u32 db (pair_offset db i + unat (key_len db))"

text \<open>The bin of a k-mer and the offset \<open>B[b]\<close> of the bound index, as numbers.\<close>

definition key_bin :: "KrakenDB \<Rightarrow> u64 \<Rightarrow> nat" where
  "key_bin db kmer = (case bin_key db kmer of Returns b_key \<Rightarrow> unat b_key | _ \<Rightarrow> 0)"

definition bin_offset :: "KrakenDB \<Rightarrow> nat \<Rightarrow> nat" where
  "bin_offset db b =
     (case index_ptr db of
        None \<Rightarrow> 0
      | Some idx \<Rightarrow> (case at False idx (word_of_nat b) of Returns v \<Rightarrow> unat v | _ \<Rightarrow> 0))"

text \<open>
  A database as the constructor makes it, over a file that holds its \<open>key_ct\<close> pairs
  (a mapped file is shorter than the address space).
\<close>

definition database_ok :: "KrakenDB \<Rightarrow> bool" where
  "database_ok db =
     (case fptr db of
        None \<Rightarrow> False
      | Some mem \<Rightarrow>
          length mem < 2 ^ 64
          \<and> pair_offset db (unat (key_ct db)) \<le> length mem
          \<and> key_bits db \<le> 64
          \<and> unat (key_len db) = (unat (key_bits db) + 7) div 8
          \<and> val_len db = 4)"

text \<open>
  The bound index: \<open>nt\<close> in \<open>[1,15]\<close> and at most \<open>k\<close>, a file with \<open>4^nt + 1\<close> offsets,
  \<open>B[0] = 0\<close>, \<open>B\<close> non-decreasing, \<open>B[4^nt] = key_ct\<close>.
\<close>

definition index_ok :: "KrakenDB \<Rightarrow> bool" where
  "index_ok db =
     (case index_ptr db of
        None \<Rightarrow> False
      | Some idx \<Rightarrow>
          1 \<le> idx_nt idx \<and> idx_nt idx \<le> 15 \<and> ucast (idx_nt idx) \<le> key_bits db div 2
          \<and> (case idx_fptr idx of
                None \<Rightarrow> False
              | Some imem \<Rightarrow> get_array + 8 * (4 ^ unat (idx_nt idx) + 1) \<le> length imem)
          \<and> bin_offset db 0 = 0
          \<and> (\<forall>b \<in> {..<4 ^ unat (idx_nt idx)}. bin_offset db b \<le> bin_offset db (Suc b))
          \<and> bin_offset db (4 ^ unat (idx_nt idx)) = unat (key_ct db))"

text \<open>
  The pair array: every pair lies in the bin of its key (\<open>B[b] \<le> i < B[b+1]\<close>), and
  the keys of one bin increase strictly. (That the keys are canonical is not needed.)
\<close>

definition pairs_ok :: "KrakenDB \<Rightarrow> bool" where
  "pairs_ok db =
     (\<forall>i \<in> {..<unat (key_ct db)}.
        bin_offset db (key_bin db (stored_key db i)) \<le> i
        \<and> i < bin_offset db (Suc (key_bin db (stored_key db i)))
        \<and> (\<forall>j \<in> {..<unat (key_ct db)}.
              i < j \<and> key_bin db (stored_key db i) = key_bin db (stored_key db j)
              \<longrightarrow> stored_key db i < stored_key db j))"

text \<open>
  The states \<open>(last_bin_key, min_pos, max_pos)\<close> a caller of the query with retry can
  hold: an initial state with \<open>min_pos > max_pos\<close>, or the state a query that returned
  has left.
\<close>

inductive reachable :: "bool \<Rightarrow> KrakenDB \<Rightarrow> u64 \<times> int \<times> int \<Rightarrow> bool"
  for testing :: bool and db :: KrakenDB where
  initial: "max_pos < min_pos \<Longrightarrow> reachable testing db (last_bin_key, min_pos, max_pos)"
| query:
    "reachable testing db (last_bin_key, min_pos, max_pos) \<Longrightarrow>
     kmer_query testing db kmer (Some last_bin_key) (Some min_pos) (Some max_pos) True
       = Returns (answer, Some last_bin_key', Some min_pos', Some max_pos') \<Longrightarrow>
     reachable testing db (last_bin_key', min_pos', max_pos')"

section \<open>An example database\<close>

text \<open>
  The database of three 4-mers \<^verbatim>\<open>CCCC\<close>, \<^verbatim>\<open>ACGT\<close>, \<^verbatim>\<open>AAAA\<close> with the taxa 30, 20, 10,
  in the order of their bin keys 8, 11, 13 under minimizers of two bases, and its index.
\<close>

definition S5_file :: region where
  "S5_file = c_string ''JFLISTDN'' @ store_le 8 @ store_le 4 @ replicate 24 0 @ store_le 3
     @ replicate 152 0 @ [85, 30, 0, 0, 0,  27, 20, 0, 0, 0,  0, 10, 0, 0, 0]"

definition S5_index_file :: region where
  "S5_index_file = c_string ''KRAKIX2'' @ [2]
     @ concat (map store_le [0, 0, 0, 0, 0, 0, 0, 0, 0, 1, 1, 1, 2, 2, 3, 3, 3])"

definition S5_index :: KrakenDBIndex where
  "S5_index = \<lparr>idx_type = 2, idx_fptr = Some S5_index_file, idx_nt = 2\<rparr>"

definition S5_db :: KrakenDB where
  "S5_db = \<lparr>fptr = Some S5_file, index_ptr = Some S5_index, db_k = 4, key_bits = 8,
     key_len = 1, val_len = 4, key_ct = 3\<rparr>"

text \<open>The same database bound to a version 1 index.\<close>

definition S4_db :: KrakenDB where
  "S4_db = set_index S5_db (Some (S5_index\<lparr>idx_type := 1\<rparr>))"

text \<open>
  A database of one 32-mer, \<open>key_bits = 64\<close>: the key \<^verbatim>\<open>AA...AT\<close> (the number 3) with
  taxon 10, in bin 1 under minimizers of one base.
\<close>

definition K32_file :: region where
  "K32_file = c_string ''JFLISTDN'' @ store_le 64 @ store_le 4 @ replicate 24 0 @ store_le 1
     @ replicate 1048 0 @ [3, 0, 0, 0, 0, 0, 0, 0, 10, 0, 0, 0]"

definition K32_index :: KrakenDBIndex where
  "K32_index = \<lparr>idx_type = 2,
     idx_fptr = Some (c_string ''KRAKIX2'' @ [1] @ concat (map store_le [0, 0, 1, 1, 1])),
     idx_nt = 1\<rparr>"

definition K32_db :: KrakenDB where
  "K32_db = \<lparr>fptr = Some K32_file, index_ptr = Some K32_index, db_k = 32, key_bits = 64,
     key_len = 8, val_len = 4, key_ct = 1\<rparr>"

text \<open>
  A database of two 32-mers: \<^verbatim>\<open>AA...AC\<close> (the number 1) with taxon 20 in bin 0, then
  \<^verbatim>\<open>AA...AA\<close> (the number 0) with taxon 10 in bin 1.
\<close>

definition D32_file :: region where
  "D32_file = c_string ''JFLISTDN'' @ store_le 64 @ store_le 4 @ replicate 24 0 @ store_le 2
     @ replicate 1048 0
     @ [1, 0, 0, 0, 0, 0, 0, 0, 20, 0, 0, 0,  0, 0, 0, 0, 0, 0, 0, 0, 10, 0, 0, 0]"

definition D32_index :: KrakenDBIndex where
  "D32_index = \<lparr>idx_type = 2,
     idx_fptr = Some (c_string ''KRAKIX2'' @ [1] @ concat (map store_le [0, 1, 2, 2, 2])),
     idx_nt = 1\<rparr>"

definition D32_db :: KrakenDB where
  "D32_db = \<lparr>fptr = Some D32_file, index_ptr = Some D32_index, db_k = 32, key_bits = 64,
     key_len = 8, val_len = 4, key_ct = 2\<rparr>"

section \<open>The query on x86-64\<close>

text \<open>
  For \<open>key_bits = 64\<close> the trim \<^verbatim>\<open>(1ull << key_bits) - 1\<close> shifts by the width of the type,
  which C++ leaves undefined. The shift instruction of x86-64 takes its count modulo 64;
  a compiler that emits it for the trim yields the query below. It differs from the query
  above in the value of that one shift, and only for \<open>key_bits \<ge> 64\<close>.
\<close>

definition load_comp_kmer_x86 :: "KrakenDB \<Rightarrow> nat option \<Rightarrow> int \<Rightarrow> u64 outcome" where
  "load_comp_kmer_x86 db ptr mid =
     (case (pair_ptr db ptr mid, fptr db) of
        (Some p, Some mem) \<Rightarrow>
          (case load_le mem p (unat (key_len db)) of
             None \<Rightarrow> Undefined OutOfBounds
           | Some comp_kmer \<Rightarrow>
               Returns (comp_kmer AND (push_bit (unat (key_bits db) mod 64) 1 - 1)))
      | _ \<Rightarrow> Undefined NullPointer)"

function binary_search_x86 ::
  "KrakenDB \<Rightarrow> nat option \<Rightarrow> u64 \<Rightarrow> int \<Rightarrow> int \<Rightarrow> (nat option, int \<times> int) loop_exit outcome" where
  "binary_search_x86 db ptr kmer min' max' =
     (if min' + 15 \<le> max' then
        (let mid = min' + (max' - min') div 2 in
         case load_comp_kmer_x86 db ptr mid of
           Returns comp_kmer \<Rightarrow>
             if comp_kmer < kmer then binary_search_x86 db ptr kmer (mid + 1) max'
             else if kmer < comp_kmer then binary_search_x86 db ptr kmer min' (mid - 1)
             else Returns (Return (value_ptr db ptr mid))
         | Errx c msg \<Rightarrow> Errx c msg
         | Undefined u \<Rightarrow> Undefined u)
      else Returns (Fallthrough (min', max')))"
  by pat_completeness auto
termination
  by (relation "measure (\<lambda>(db, ptr, kmer, min', max'). nat (max' - min'))") auto

function linear_search_x86 ::
  "KrakenDB \<Rightarrow> nat option \<Rightarrow> u64 \<Rightarrow> int \<Rightarrow> int \<Rightarrow> (nat option, unit) loop_exit outcome" where
  "linear_search_x86 db ptr kmer mid max' =
     (if mid \<le> max' then
        (case load_comp_kmer_x86 db ptr mid of
           Returns comp_kmer \<Rightarrow>
             if kmer = comp_kmer then Returns (Return (value_ptr db ptr mid))
             else linear_search_x86 db ptr kmer (mid + 1) max'
         | Errx c msg \<Rightarrow> Errx c msg
         | Undefined u \<Rightarrow> Undefined u)
      else Returns (Fallthrough ()))"
  by pat_completeness auto
termination
  by (relation "measure (\<lambda>(db, ptr, kmer, mid, max'). nat (max' + 1 - mid))") auto

definition hybrid_search_x86 ::
  "KrakenDB \<Rightarrow> nat option \<Rightarrow> u64 \<Rightarrow> int \<Rightarrow> int \<Rightarrow> (nat option, unit) loop_exit outcome" where
  "hybrid_search_x86 db ptr kmer min' max' =
     obind (binary_search_x86 db ptr kmer min' max') (\<lambda>e.
       case e of
         Return answer \<Rightarrow> Returns (Return answer)
       | Fallthrough (min'', max'') \<Rightarrow> linear_search_x86 db ptr kmer min'' max'')"

function kmer_query_x86 ::
  "bool \<Rightarrow> KrakenDB \<Rightarrow> u64 \<Rightarrow> u64 option \<Rightarrow> int option \<Rightarrow> int option \<Rightarrow> bool
   \<Rightarrow> (nat option \<times> u64 option \<times> int option \<times> int option) outcome" where
  "kmer_query_x86 testing db kmer last_bin_key0 min_pos0 max_pos0 retry_on_failure =
     (case window_init testing db kmer last_bin_key0 min_pos0 max_pos0 retry_on_failure of
        Errx c msg \<Rightarrow> Errx c msg
      | Undefined u \<Rightarrow> Undefined u
      | Returns (b_key0, min0, max0, last_bin_key, min_pos, max_pos) \<Rightarrow>
         (case hybrid_search_x86 db (get_pair_ptr db) kmer min0 max0 of
            Errx c msg \<Rightarrow> Errx c msg
          | Undefined u \<Rightarrow> Undefined u
          | Returns (Return answer) \<Rightarrow> Returns (answer, last_bin_key, min_pos, max_pos)
          | Returns (Fallthrough _) \<Rightarrow>
              if retry_on_failure then
                (case bin_key db kmer of
                   Errx c msg \<Rightarrow> Errx c msg
                 | Undefined u \<Rightarrow> Undefined u
                 | Returns b_key \<Rightarrow>
                    (case last_bin_key of
                       None \<Rightarrow> Undefined NullPointer
                     | Some last_key \<Rightarrow>
                         if b_key = last_key then Returns (None, last_bin_key, min_pos, max_pos)
                         else
                           (case index_range testing db b_key of
                              Errx c msg \<Rightarrow> Errx c msg
                            | Undefined u \<Rightarrow> Undefined u
                            | Returns (min', max') \<Rightarrow>
                               (case kmer_query_x86 testing db kmer (Some b_key) (Some min') (Some max') False of
                                  Errx c msg \<Rightarrow> Errx c msg
                                | Undefined u \<Rightarrow> Undefined u
                                | Returns (answer, b_key_cell, min_cell, max_cell) \<Rightarrow>
                                    (case last_bin_key of
                                       None \<Rightarrow> Returns (answer, last_bin_key, min_pos, max_pos)
                                     | Some _ \<Rightarrow>
                                        (case (min_pos, max_pos) of
                                           (Some _, Some _) \<Rightarrow> Returns (answer, b_key_cell, min_cell, max_cell)
                                         | _ \<Rightarrow> Undefined NullPointer))))))
              else Returns (None, last_bin_key, min_pos, max_pos)))"
  by pat_completeness auto
termination
  by (relation "measure (\<lambda>(testing, db, kmer, l, mn, mx, retry). if retry then 1 else 0)") auto

definition kmer_query1_x86 :: "bool \<Rightarrow> KrakenDB \<Rightarrow> u64 \<Rightarrow> nat option outcome" where
  "kmer_query1_x86 testing db kmer =
     obind (kmer_query_x86 testing db kmer None None None False) (\<lambda>(answer, cells). Returns answer)"

section \<open>Auxiliary notions for the proofs\<close>

text \<open>
  The five swaps of \<^verbatim>\<open>reverse_complement\<close> together: bit \<open>j\<close> of the result is bit
  \<open>rho j\<close> of the argument; one swap by \<open>s\<close> moves bit \<open>flip_at s j\<close> to \<open>j\<close>.
\<close>

definition swap_groups :: "u64 \<Rightarrow> u64" where
  "swap_groups kmer0 =
    (let kmer = (drop_bit 2 kmer0 AND 0x3333333333333333) OR push_bit 2 (kmer0 AND 0x3333333333333333);
         kmer = (drop_bit 4 kmer AND 0x0F0F0F0F0F0F0F0F) OR push_bit 4 (kmer AND 0x0F0F0F0F0F0F0F0F);
         kmer = (drop_bit 8 kmer AND 0x00FF00FF00FF00FF) OR push_bit 8 (kmer AND 0x00FF00FF00FF00FF);
         kmer = (drop_bit 16 kmer AND 0x0000FFFF0000FFFF) OR push_bit 16 (kmer AND 0x0000FFFF0000FFFF)
     in drop_bit 32 kmer OR push_bit 32 kmer)"

definition flip_at :: "nat \<Rightarrow> nat \<Rightarrow> nat" where
  "flip_at s j = (if even (j div s) then j + s else j - s)"

definition rho :: "nat \<Rightarrow> nat" where
  "rho j = (if even j then 62 - j else 64 - j)"

text \<open>The keys of the pairs \<open>lo, \<dots>, hi\<close> increase strictly.\<close>

definition increasing_on :: "KrakenDB \<Rightarrow> int \<Rightarrow> int \<Rightarrow> bool" where
  "increasing_on db lo hi =
     (\<forall>i j. lo \<le> i \<and> i < j \<and> j \<le> hi \<longrightarrow> stored_key db (nat i) < stored_key db (nat j))"

text \<open>The window of bin \<open>b\<close>: the positions \<open>B[b], \<dots>, B[b+1] - 1\<close>.\<close>

definition bin_window :: "KrakenDB \<Rightarrow> nat \<Rightarrow> int \<times> int" where
  "bin_window db b = (int (bin_offset db b), int (bin_offset db (Suc b)) - 1)"

text \<open>
  What a state of the query with retry satisfies: it is not valid, or the keys can be
  read, and it holds a bin and the window of that bin.
\<close>

definition state_inv :: "KrakenDB \<Rightarrow> u64 \<times> int \<times> int \<Rightarrow> bool" where
  "state_inv db st =
     (case st of (last_bin_key, min_pos, max_pos) \<Rightarrow>
        max_pos < min_pos
        \<or> key_bits db < 64
           \<and> (\<exists>idx. index_ptr db = Some idx \<and> unat last_bin_key < 4 ^ unat (idx_nt idx))
           \<and> (min_pos, max_pos) = bin_window db (unat last_bin_key))"

section \<open>Reverse complement and canonical form\<close>

lemma less_64_cases:
  "j < (64::nat) \<Longrightarrow> j = 0 \<or> j = 1 \<or> j = 2 \<or> j = 3 \<or> j = 4 \<or> j = 5 \<or> j = 6 \<or> j = 7 \<or> j = 8 \<or> j = 9 \<or> j = 10 \<or> j = 11 \<or> j = 12 \<or> j = 13 \<or> j = 14 \<or> j = 15 \<or> j = 16 \<or> j = 17 \<or> j = 18 \<or> j = 19 \<or> j = 20 \<or> j = 21 \<or> j = 22 \<or> j = 23 \<or> j = 24 \<or> j = 25 \<or> j = 26 \<or> j = 27 \<or> j = 28 \<or> j = 29 \<or> j = 30 \<or> j = 31 \<or> j = 32 \<or> j = 33 \<or> j = 34 \<or> j = 35 \<or> j = 36 \<or> j = 37 \<or> j = 38 \<or> j = 39 \<or> j = 40 \<or> j = 41 \<or> j = 42 \<or> j = 43 \<or> j = 44 \<or> j = 45 \<or> j = 46 \<or> j = 47 \<or> j = 48 \<or> j = 49 \<or> j = 50 \<or> j = 51 \<or> j = 52 \<or> j = 53 \<or> j = 54 \<or> j = 55 \<or> j = 56 \<or> j = 57 \<or> j = 58 \<or> j = 59 \<or> j = 60 \<or> j = 61 \<or> j = 62 \<or> j = 63"
  by arith

lemma bit_u64_out: "64 \<le> n \<Longrightarrow> bit (y::u64) n = False"
  by (auto dest: bit_imp_le_length)

lemma swap_stage2:
  fixes y :: u64
  shows "j < 64 \<Longrightarrow>
    bit ((drop_bit 2 y AND 0x3333333333333333) OR push_bit 2 (y AND 0x3333333333333333)) j = bit y (flip_at 2 j)"
  by (drule less_64_cases, elim disjE;
      simp add: bit_simps flip_at_def bit_u64_out numeral_2_eq_2[symmetric] numeral_3_eq_3[symmetric])

lemma swap_stage4:
  fixes y :: u64
  shows "j < 64 \<Longrightarrow>
    bit ((drop_bit 4 y AND 0x0F0F0F0F0F0F0F0F) OR push_bit 4 (y AND 0x0F0F0F0F0F0F0F0F)) j = bit y (flip_at 4 j)"
  by (drule less_64_cases, elim disjE;
      simp add: bit_simps flip_at_def bit_u64_out numeral_2_eq_2[symmetric] numeral_3_eq_3[symmetric])

lemma swap_stage8:
  fixes y :: u64
  shows "j < 64 \<Longrightarrow>
    bit ((drop_bit 8 y AND 0x00FF00FF00FF00FF) OR push_bit 8 (y AND 0x00FF00FF00FF00FF)) j = bit y (flip_at 8 j)"
  by (drule less_64_cases, elim disjE;
      simp add: bit_simps flip_at_def bit_u64_out numeral_2_eq_2[symmetric] numeral_3_eq_3[symmetric])

lemma swap_stage16:
  fixes y :: u64
  shows "j < 64 \<Longrightarrow>
    bit ((drop_bit 16 y AND 0x0000FFFF0000FFFF) OR push_bit 16 (y AND 0x0000FFFF0000FFFF)) j = bit y (flip_at 16 j)"
  by (drule less_64_cases, elim disjE;
      simp add: bit_simps flip_at_def bit_u64_out numeral_2_eq_2[symmetric] numeral_3_eq_3[symmetric])

lemma swap_stage32:
  fixes y :: u64
  shows "j < 64 \<Longrightarrow> bit (drop_bit 32 y OR push_bit 32 y) j = bit y (flip_at 32 j)"
  by (drule less_64_cases, elim disjE;
      simp add: bit_simps flip_at_def bit_u64_out numeral_2_eq_2[symmetric] numeral_3_eq_3[symmetric])

lemma flip_at_less:
  "j < 64 \<Longrightarrow> s = 2 \<or> s = 4 \<or> s = 8 \<or> s = 16 \<or> s = 32 \<Longrightarrow> flip_at s j < 64"
  by (drule less_64_cases, elim disjE; simp add: flip_at_def)

lemma flip_at_comp:
  "j < 64 \<Longrightarrow> flip_at 2 (flip_at 4 (flip_at 8 (flip_at 16 (flip_at 32 j)))) = rho j"
  by (drule less_64_cases, elim disjE; simp add: rho_def flip_at_def)

lemma swap_groups_bit:
  assumes "j < 64"
  shows "bit (swap_groups x) j = bit x (rho j)"
proof -
  note r1 = flip_at_less[OF assms, of 32, simplified]
  note r2 = flip_at_less[OF r1, of 16, simplified]
  note r3 = flip_at_less[OF r2, of 8, simplified]
  note r4 = flip_at_less[OF r3, of 4, simplified]
  show ?thesis
    unfolding swap_groups_def Let_def
    apply (subst swap_stage32[OF assms])
    apply (subst swap_stage16[OF r1])
    apply (subst swap_stage8[OF r2])
    apply (subst swap_stage4[OF r3])
    apply (subst swap_stage2[OF r4])
    apply (subst flip_at_comp[OF assms])
    apply (rule refl)
    done
qed

lemma rc_shift:
  assumes "n \<le> (32::u8)"
  shows "unat (8 * 8 - push_bit 1 (ucast n :: u64)) = 64 - 2 * unat n"
proof -
  have n: "unat n \<le> 32" using assms by (simp add: word_le_nat_alt)
  have "unat (push_bit 1 (ucast n :: u64)) = 2 * unat n"
    using n by (simp add: push_bit_eq_mult unat_word_ariths unsigned_ucast_eq take_bit_nat_eq_self)
  moreover have "push_bit 1 (ucast n :: u64) \<le> 64"
    using n calculation by (simp add: word_le_nat_alt)
  ultimately show ?thesis by (simp add: unat_sub)
qed

lemma minus_one_minus: "(- 1) - (w::u64) = NOT w"
  by (simp add: not_eq_complement)

lemma reverse_complement_eq:
  "n \<le> 32 \<Longrightarrow> reverse_complement x n = drop_bit (64 - 2 * unat n) (NOT (swap_groups x))"
  unfolding reverse_complement_def swap_groups_def Let_def
  by (simp only: rc_shift minus_one_minus)

lemma bit_reverse_complement:
  assumes "n \<le> 32"
  shows "bit (reverse_complement x n) j
     \<longleftrightarrow> j < 2 * unat n \<and> \<not> bit x (rho (64 - 2 * unat n + j))"
proof -
  have n: "unat n \<le> 32" using assms by (simp add: word_le_nat_alt)
  show ?thesis
  proof (cases "j < 2 * unat n")
    case True
    then have "64 - 2 * unat n + j < 64" using n by arith
    then show ?thesis
      using True by (simp add: reverse_complement_eq[OF assms] bit_simps swap_groups_bit)
  next
    case False
    then have "64 \<le> 64 - 2 * unat n + j" using n by arith
    then show ?thesis
      using False by (simp add: reverse_complement_eq[OF assms] bit_simps)
  qed
qed

lemma rho_back:
  assumes "n \<le> (32::nat)" "j < 2 * n"
  shows "rho (64 - 2 * n + rho (64 - 2 * n + j)) = j"
        "rho (64 - 2 * n + j) < 2 * n"
proof -
  obtain s where s: "s = 64 - 2 * n" by simp
  have es: "even s" using assms(1) unfolding s by simp
  have sj: "s + 2 * n = 64" using assms(1) unfolding s by simp
  show "rho (64 - 2 * n + j) < 2 * n"
  proof (cases "even j")
    case True
    then have "rho (s + j) = 62 - (s + j)" using es by (simp add: rho_def)
    then show ?thesis using sj assms(2) unfolding s by arith
  next
    case False
    then have "0 < j" by (cases j) auto
    moreover have "rho (s + j) = 64 - (s + j)" using es False by (simp add: rho_def)
    ultimately show ?thesis using sj assms(2) unfolding s by arith
  qed
  show "rho (64 - 2 * n + rho (64 - 2 * n + j)) = j"
  proof (cases "even j")
    case True
    then have 1: "rho (s + j) = 62 - (s + j)" using es by (simp add: rho_def)
    have "Suc j < 2 * n" using True assms(2) by presburger
    then have 2: "s + (62 - (s + j)) = 62 - j" using sj by arith
    have j62: "j \<le> 62" using \<open>Suc j < 2 * n\<close> assms(1) by arith
    have "even (62 - j)" using True by simp
    then have "rho (62 - j) = j" using j62 by (simp add: rho_def)
    then show ?thesis using 1 2 unfolding s by simp
  next
    case False
    then have j0: "0 < j" by (cases j) auto
    have 1: "rho (s + j) = 64 - (s + j)" using es False by (simp add: rho_def)
    have 2: "s + (64 - (s + j)) = 64 - j" using sj assms(2) by arith
    have "j < 64" using sj assms(2) by arith
    then have "odd (64 - j)" using False by simp
    then have "rho (64 - j) = j" using \<open>j < 64\<close> by (simp add: rho_def)
    then show ?thesis using 1 2 unfolding s by simp
  qed
qed

lemma unat_less_bit:
  fixes x :: u64
  assumes "unat x < 2 ^ m" "bit x j"
  shows "j < m"
proof (rule ccontr)
  assume "\<not> j < m"
  then have "(2::nat) ^ m \<le> 2 ^ j" by (simp add: power_increasing)
  then have "unat x < 2 ^ j" using assms(1) by (rule less_le_trans[rotated])
  then have "unat x div 2 ^ j = 0" by (rule div_less)
  moreover have "bit (unat x) j" using assms(2) by (simp add: bit_unsigned_iff)
  ultimately show False by (simp add: bit_iff_odd)
qed

lemma rc_involutive:
  assumes "n \<le> 32" "unat x < 2 ^ (2 * unat n)"
  shows "reverse_complement (reverse_complement x n) n = x"
proof (rule bit_eqI)
  fix j
  have n: "unat n \<le> 32" using assms(1) by (simp add: word_le_nat_alt)
  show "bit (reverse_complement (reverse_complement x n) n) j = bit x j"
  proof (cases "j < 2 * unat n")
    case True
    show ?thesis
      using True rho_back[OF n True]
      by (simp add: bit_reverse_complement[OF assms(1)])
  next
    case False
    then have "\<not> bit x j" using unat_less_bit[OF assms(2)] by blast
    then show ?thesis using False by (simp add: bit_reverse_complement[OF assms(1)])
  qed
qed

text \<open>
  C5. For every \<open>n\<close> in \<open>[1,32]\<close> and every \<open>x\<close> in \<open>[0, 2^(2n))\<close>, the reverse
  complement of the reverse complement of \<open>x\<close> is \<open>x\<close>.
\<close>

theorem reverse_complement_involution:
  assumes "1 \<le> n" "n \<le> 32" "unat x < 2 ^ (2 * unat n)"
  shows "reverse_complement (reverse_complement x n) n = x"
  using assms(2,3) by (rule rc_involutive)

text \<open>The k-mer \<^verbatim>\<open>ATCGCCCC\<close> is 13909.\<close>

theorem reverse_complement_involution_witness:
  "(1::u8) \<le> 8 \<and> (8::u8) \<le> 32 \<and> unat (13909::u64) < 2 ^ (2 * unat (8::u8))
   \<and> reverse_complement (reverse_complement 13909 8) 8 = 13909"
  using reverse_complement_involution[of 8 13909] by simp

text \<open>
  C6. For every \<open>n\<close> in \<open>[1,32]\<close> and every \<open>x\<close> in \<open>[0, 2^(2n))\<close>, the canonical
  representation of \<open>x\<close> is the unsigned minimum of \<open>x\<close> and its reverse complement, and
  the reverse complement of \<open>x\<close> has the same canonical representation as \<open>x\<close>.
\<close>

theorem canonical_representation_min:
  assumes "1 \<le> n" "n \<le> 32" "unat x < 2 ^ (2 * unat n)"
  shows "canonical_representation x n = min x (reverse_complement x n)
       \<and> canonical_representation (reverse_complement x n) n = canonical_representation x n"
  using rc_involutive[OF assms(2,3)]
  by (auto simp add: canonical_representation_def Let_def min_def)

text \<open>The k-mer \<^verbatim>\<open>TTTT\<close> is 255.\<close>

theorem canonical_representation_min_witness:
  "(1::u8) \<le> 4 \<and> (4::u8) \<le> 32 \<and> unat (255::u64) < 2 ^ (2 * unat (4::u8))
   \<and> canonical_representation 255 4 = min 255 (reverse_complement 255 4)
   \<and> canonical_representation (reverse_complement 255 4) 4 = canonical_representation 255 4"
  using canonical_representation_min[of 4 255] by simp

section \<open>Bin keys\<close>

lemma Min_insert_min:
  assumes "finite S"
  shows "Min (insert (if t < b then t else b) S) = Min (insert (t::u64) (insert b S))"
proof (cases "S = {}")
  case True
  then show ?thesis by (auto simp add: min_def)
next
  case False
  then show ?thesis using assms by (auto simp add: min_def)
qed

lemma bin_key_loop_Min:
  "bin_key_loop c nt xm m kmer b =
     Min (insert b ((\<lambda>i. xm XOR canonical_representation (drop_bit (2 * i) kmer AND m) nt) ` {..<c}))"
proof (induction c arbitrary: kmer b)
  case 0
  then show ?case by simp
next
  case (Suc c)
  let ?g = "\<lambda>i. xm XOR canonical_representation (drop_bit (2 * i) kmer AND m) nt"
  have sh: "(\<lambda>i. xm XOR canonical_representation (drop_bit (2 * i) (drop_bit 2 kmer) AND m) nt)
             = (\<lambda>i. ?g (Suc i))"
    by (simp add: add.commute)
  have img: "?g ` {..<Suc c} = insert (?g 0) ((\<lambda>i. ?g (Suc i)) ` {..<c})"
    by (simp add: lessThan_Suc_eq_insert_0 image_image)
  have "bin_key_loop (Suc c) nt xm m kmer b
      = Min (insert (if ?g 0 < b then ?g 0 else b) ((\<lambda>i. ?g (Suc i)) ` {..<c}))"
    by (simp add: Suc.IH sh Let_def)
  also have "\<dots> = Min (insert (?g 0) (insert b ((\<lambda>i. ?g (Suc i)) ` {..<c})))"
    by (rule Min_insert_min) simp
  also have "\<dots> = Min (insert b (?g ` {..<Suc c}))"
    by (simp only: img insert_commute)
  finally show ?case .
qed

lemma canonical_le: "canonical_representation y n \<le> y"
  by (simp add: canonical_representation_def Let_def not_less)

lemma in_mask_xor:
  fixes a b :: u64
  assumes "a AND mask n = a" "b AND mask n = b"
  shows "(a XOR b) AND mask n = a XOR b"
  using assms by (metis bit.conj_xor_distrib2)

lemma le_in_mask:
  fixes a b :: u64
  assumes "n < 64" "a \<le> b" "b AND mask n = b"
  shows "a AND mask n = a"
proof -
  have "b < 2 ^ n" using assms(1,3) by (simp add: mask_eq_iff_w2p word_size)
  then have "a < 2 ^ n" using assms(2) by simp
  then show ?thesis by (rule less_mask_eq)
qed

lemma bin_key_term_less:
  fixes xm0 y :: u64
  assumes "n < 64"
  shows "(xm0 AND mask n) XOR canonical_representation (y AND mask n) nt < 2 ^ n"
proof -
  have "canonical_representation (y AND mask n) nt AND mask n = canonical_representation (y AND mask n) nt"
    by (rule le_in_mask[OF assms canonical_le]) simp
  then have "((xm0 AND mask n) XOR canonical_representation (y AND mask n) nt) AND mask n
     = (xm0 AND mask n) XOR canonical_representation (y AND mask n) nt"
    by (intro in_mask_xor) simp_all
  then show ?thesis using assms by (simp add: mask_eq_iff_w2p word_size)
qed

lemma unat_ucast_u8: "unat (ucast (nt::u8) :: u64) = unat nt"
proof -
  have "unat nt < 2 ^ 8" using unsigned_less[of nt, where 'a = nat] by simp
  then have "unat nt < 2 ^ 64" by simp
  then show ?thesis by (simp add: unsigned_ucast_eq take_bit_nat_eq_self)
qed

lemma loop_count:
  assumes "ucast (nt::u8) \<le> (kbits::u64) div 2"
  shows "unat (kbits div 2 - ucast nt + 1) = Suc (unat (kbits div 2) - unat nt)"
proof -
  have b: "unat (kbits div 2 - ucast nt) = unat (kbits div 2) - unat nt"
    using assms by (simp add: unat_sub unat_ucast_u8)
  have c: "unat (kbits div 2) = unat kbits div 2" by (simp add: unat_div)
  have d: "unat kbits < 2 ^ 64" using unsigned_less[of kbits, where 'a = nat] by simp
  have "unat (kbits div 2 - ucast nt) + unat (1::u64) < 2 ^ LENGTH(64)" using b c d by simp
  then have "unat (kbits div 2 - ucast nt + 1) = unat (kbits div 2 - ucast nt) + unat (1::u64)"
    by (simp only: unat_add_lem)
  then show ?thesis using b by simp
qed

lemma Min_insert_top:
  fixes S :: "u64 set"
  assumes "finite S" "S \<noteq> {}"
  shows "Min (insert (NOT 0) S) = Min S"
proof -
  have "Min (insert (NOT 0) S) = min (NOT 0) (Min S)" using assms by (rule Min_insert)
  also have "\<dots> = Min S" by (auto simp add: min_def intro: antisym)
  finally show ?thesis .
qed

lemma bin_key_body_Min:
  assumes "1 \<le> nt" "nt \<le> 15" "ucast nt \<le> kbits div 2"
  shows "bin_key_body kbits nt xor_mask kmer = Returns (Min (minimizers kbits nt xor_mask kmer))"
proof -
  have nz: "nt \<noteq> 0" "\<not> 15 < nt" using assms(1,2) by auto
  let ?c = "unat (kbits div 2) - unat nt"
  let ?g = "\<lambda>i. (xor_mask AND mask (2 * unat nt))
            XOR canonical_representation (drop_bit (2 * i) kmer AND mask (2 * unat nt)) nt"
  have m: "push_bit (unat nt * 2) 1 - 1 = (mask (2 * unat nt) :: u64)"
    by (simp add: mask_eq_exp_minus_1 mult.commute)
  have set: "{..<Suc ?c} = {0 .. ?c}" by auto
  have "bin_key_body kbits nt xor_mask kmer
      = Returns (bin_key_loop (Suc ?c) nt (xor_mask AND mask (2 * unat nt)) (mask (2 * unat nt)) kmer (NOT 0))"
    unfolding bin_key_body_def Let_def m loop_count[OF assms(3)] using nz by (simp only: simp_thms if_False)
  also have "bin_key_loop (Suc ?c) nt (xor_mask AND mask (2 * unat nt)) (mask (2 * unat nt)) kmer (NOT 0)
      = Min (insert (NOT 0) (?g ` {..<Suc ?c}))"
    by (rule bin_key_loop_Min)
  also have "\<dots> = Min (?g ` {0 .. ?c})"
    unfolding set by (rule Min_insert_top) simp_all
  finally show ?thesis unfolding minimizers_def .
qed

lemma minimizers_less:
  assumes "nt \<le> 15" "b \<in> minimizers kbits nt xor_mask kmer"
  shows "b < 2 ^ (2 * unat nt)"
proof -
  have "unat nt \<le> 15" using assms(1) by (simp add: word_le_nat_alt)
  then have "2 * unat nt < 64" by simp
  then show ?thesis using assms(2) unfolding minimizers_def
    by (auto intro: bin_key_term_less)
qed

lemma minimizers_Min_in:
  "Min (minimizers kbits nt xor_mask kmer) \<in> minimizers kbits nt xor_mask kmer"
  unfolding minimizers_def by (rule Min_in) auto


lemma bin_key_Min:
  assumes "index_ptr db = Some idx" "1 \<le> idx_nt idx" "idx_nt idx \<le> 15"
    "ucast (idx_nt idx) \<le> key_bits db div 2"
  shows "bin_key db kmer = Returns (Min (minimizers (key_bits db) (idx_nt idx)
            (if idx_type idx = 1 then 0 else INDEX2_XOR_MASK) kmer))"
  using assms by (simp add: bin_key_def bin_key_body_Min)

lemma ucast_ucast_u8: "(ucast (ucast (nt::u8) :: u64) :: u8) = nt"
  by (simp add: ucast_up_ucast_id is_up)

lemma bin_key_nt_Min:
  assumes "1 \<le> nt" "nt \<le> 15" "ucast nt \<le> key_bits db div 2"
  shows "bin_key_nt db kmer (ucast nt) = Returns (Min (minimizers (key_bits db) nt INDEX2_XOR_MASK kmer))"
  using assms by (simp add: bin_key_nt_def bin_key_body_Min ucast_ucast_u8)

lemma unat_2p:
  assumes "n < 64"
  shows "unat (2 ^ n :: u64) = 2 ^ n"
proof -
  have "(2 ^ n :: u64) = word_of_nat (2 ^ n)" by simp
  then have "unat (2 ^ n :: u64) = 2 ^ n mod 2 ^ LENGTH(64)" by (simp only: unat_of_nat)
  moreover have "(2::nat) ^ n < 2 ^ 64" using assms by (rule power_strict_increasing) simp
  ultimately show ?thesis by simp
qed

lemma Min_minimizers_less:
  assumes "nt \<le> 15"
  shows "unat (Min (minimizers kbits nt xor_mask kmer)) < 4 ^ unat nt"
proof -
  have "Min (minimizers kbits nt xor_mask kmer) < 2 ^ (2 * unat nt)"
    using minimizers_less[OF assms minimizers_Min_in] .
  moreover have "unat nt \<le> 15" using assms by (simp add: word_le_nat_alt)
  ultimately have "unat (Min (minimizers kbits nt xor_mask kmer)) < 2 ^ (2 * unat nt)"
    by (simp add: word_less_nat_alt unat_2p)
  then show ?thesis by (simp add: power_mult)
qed

text \<open>
  C3. For \<open>nt\<close> in \<open>[1,15]\<close> and \<open>nt \<le> k = key_bits / 2\<close>, \<^verbatim>\<open>bin_key\<close> returns the minimum
  over the \<open>k - nt + 1\<close> substrings of the effective XOR mask XOR the canonical form of
  the substring, with the mask 0 for a version 1 index and \<^verbatim>\<open>INDEX2_XOR_MASK\<close> otherwise
  (and always \<^verbatim>\<open>INDEX2_XOR_MASK\<close> in the overload with two parameters); for \<open>nt = 2\<close>,
  mask 0 and the 4-mer \<^verbatim>\<open>ACGT\<close> it returns 1. The bounds \<open>k \<le> 32\<close> and \<open>x < 4^k\<close> of the
  claim are not needed.
\<close>

theorem bin_key_minimum:
  assumes "1 \<le> nt" "nt \<le> 15" "ucast nt \<le> key_bits db div 2"
    "index_ptr db = Some idx" "idx_nt idx = nt"
  shows "bin_key db x = Returns (Min (minimizers (key_bits db) nt
            (if idx_type idx = 1 then 0 else INDEX2_XOR_MASK) x))
       \<and> bin_key_nt db x (ucast nt) = Returns (Min (minimizers (key_bits db) nt INDEX2_XOR_MASK x))
       \<and> string_to_kmer ''ACGT'' = Returns 27 \<and> bin_key S4_db 27 = Returns 1"
proof -
  have "string_to_kmer ''ACGT'' = Returns 27" by (simp add: string_to_kmer_def)
  moreover have "bin_key S4_db 27 = Returns 1" by code_simp
  ultimately show ?thesis
    using assms bin_key_Min[of db idx x] bin_key_nt_Min[of nt db x] by simp
qed

theorem bin_key_minimum_witness:
  "(1::u8) \<le> 2 \<and> (2::u8) \<le> 15 \<and> ucast (2::u8) \<le> key_bits S4_db div 2
   \<and> index_ptr S4_db = Some (S5_index\<lparr>idx_type := 1\<rparr>) \<and> idx_nt (S5_index\<lparr>idx_type := 1\<rparr>) = 2
   \<and> bin_key S4_db 27 = Returns (Min (minimizers (key_bits S4_db) 2 0 27))
   \<and> Min (minimizers (key_bits S4_db) 2 0 27) = 1"
proof -
  have h: "(1::u8) \<le> 2" "(2::u8) \<le> 15" "ucast (2::u8) \<le> key_bits S4_db div 2"
    "index_ptr S4_db = Some (S5_index\<lparr>idx_type := 1\<rparr>)" "idx_nt (S5_index\<lparr>idx_type := 1\<rparr>) = 2"
    by (simp_all add: S4_db_def S5_db_def S5_index_def set_index_def)
  note t = bin_key_minimum[OF h, of 27]
  have a: "bin_key S4_db 27 = Returns (Min (minimizers (key_bits S4_db) 2 0 27))"
    using t[THEN conjunct1] by simp
  have b: "bin_key S4_db 27 = Returns 1"
    using t by (elim conjE)
  have "Min (minimizers (key_bits S4_db) 2 0 27) = 1"
    using a unfolding b by simp
  then show ?thesis using h a by simp
qed

lemma at_in_range:
  assumes "idx_nt idx \<le> 15" "idx_fptr idx = Some imem"
    "get_array + 8 * (4 ^ unat (idx_nt idx) + 1) \<le> length imem" "unat i \<le> 4 ^ unat (idx_nt idx)"
  shows "\<exists>v. at testing idx i = Returns v \<and> load_le imem (get_array + 8 * unat i) 8 = Some v"
proof -
  have n: "unat (idx_nt idx) \<le> 15" using assms(1) by (simp add: word_le_nat_alt)
  then have n2: "unat (idx_nt idx) * 2 < 64" by simp
  have "unat (push_bit (unat (idx_nt idx) * 2) 1 :: u64) = 2 ^ (unat (idx_nt idx) * 2)"
    using n2 by (simp add: unat_2p)
  then have p: "unat (push_bit (unat (idx_nt idx) * 2) 1 :: u64) = 4 ^ unat (idx_nt idx)"
    by (simp add: power_mult mult.commute)
  have "(4::nat) ^ unat (idx_nt idx) \<le> 4 ^ 15" using n by (rule power_increasing) simp
  then have "unat (1::u64) + unat (push_bit (unat (idx_nt idx) * 2) 1 :: u64) < 2 ^ LENGTH(64)"
    using p by simp
  then have "unat (1 + push_bit (unat (idx_nt idx) * 2) 1 :: u64)
      = unat (1::u64) + unat (push_bit (unat (idx_nt idx) * 2) 1 :: u64)"
    by (rule unat_add_lem[THEN iffD1])
  then have "unat (1 + push_bit (unat (idx_nt idx) * 2) 1 :: u64) = 1 + 4 ^ unat (idx_nt idx)"
    unfolding p by simp
  then have g: "\<not> 1 + push_bit (unat (idx_nt idx) * 2) 1 < i"
    using assms(4) by (simp add: word_less_nat_alt)
  have "get_array + 8 * unat i + 8 \<le> length imem" using assms(3,4) by simp
  then obtain v where "load_le imem (get_array + 8 * unat i) 8 = Some v"
    by (simp add: load_le_def)
  then show ?thesis using g n2 assms(2) by (simp add: at_def)
qed

lemma entries_eq:
  assumes "nt \<le> (15::u8)"
  shows "unat (push_bit (unat nt * 2) 1 :: u64) = 4 ^ unat nt"
proof -
  have "unat nt \<le> 15" using assms by (simp add: word_le_nat_alt)
  then have "unat nt * 2 < 64" by simp
  then have "unat (push_bit (unat nt * 2) 1 :: u64) = 2 ^ (unat nt * 2)" by (simp add: unat_2p)
  also have "(2::nat) ^ (unat nt * 2) = (2 ^ 2) ^ unat nt"
    by (simp only: mult.commute[of "unat nt" 2] power_mult)
  also have "\<dots> = 4 ^ unat nt" by simp
  finally show ?thesis .
qed

lemma unat_Suc_bin:
  fixes b :: u64
  assumes "unat b < 4 ^ n" "n \<le> 15"
  shows "unat (b + 1) = Suc (unat b)"
proof -
  have "(4::nat) ^ n \<le> 4 ^ 15" using assms(2) by (rule power_increasing) simp
  then have "unat b + unat (1::u64) < 2 ^ LENGTH(64)" using assms(1) by simp
  then have "unat (b + 1) = unat b + unat (1::u64)" by (rule unat_add_lem[THEN iffD1])
  then show ?thesis by simp
qed

text \<open>
  C9. For \<open>nt\<close> in \<open>[1,15]\<close> with \<open>nt \<le> key_bits / 2\<close> and every 64-bit k-mer, the bin key
  is below \<open>4^nt\<close>: in \<^verbatim>\<open>make_index\<close> it is an index into the \<open>entries\<close> counters, and
  in a query the reads \<^verbatim>\<open>at(b_key)\<close> and \<^verbatim>\<open>at(b_key + 1)\<close> lie in an offset array of
  \<open>4^nt + 1\<close> entries (they return, in a build with and without \<^verbatim>\<open>TESTING\<close>).
\<close>

theorem bin_key_in_range:
  assumes "1 \<le> nt" "nt \<le> 15" "ucast nt \<le> key_bits db div 2"
  shows "(\<exists>b_key. bin_key_nt db kmer (ucast nt) = Returns b_key \<and> unat b_key < 4 ^ unat nt
            \<and> unat b_key < unat (push_bit (unat nt * 2) 1 :: u64))
       \<and> (\<forall>idx imem. index_ptr db = Some idx \<and> idx_nt idx = nt \<and> idx_fptr idx = Some imem
              \<and> get_array + 8 * (4 ^ unat nt + 1) \<le> length imem \<longrightarrow>
            (\<exists>b_key lo hi. bin_key db kmer = Returns b_key \<and> unat b_key < 4 ^ unat nt
               \<and> at testing idx b_key = Returns lo \<and> at testing idx (b_key + 1) = Returns hi))"
proof (intro conjI allI impI)
  show "\<exists>b_key. bin_key_nt db kmer (ucast nt) = Returns b_key \<and> unat b_key < 4 ^ unat nt
            \<and> unat b_key < unat (push_bit (unat nt * 2) 1 :: u64)"
    using bin_key_nt_Min[OF assms] Min_minimizers_less[OF assms(2)] entries_eq[OF assms(2)]
    by simp
next
  fix idx imem
  assume h: "index_ptr db = Some idx \<and> idx_nt idx = nt \<and> idx_fptr idx = Some imem
              \<and> get_array + 8 * (4 ^ unat nt + 1) \<le> length imem"
  let ?b = "Min (minimizers (key_bits db) nt (if idx_type idx = 1 then 0 else INDEX2_XOR_MASK) kmer)"
  have b: "bin_key db kmer = Returns ?b" using bin_key_Min[of db idx kmer] h assms by simp
  have l: "unat ?b < 4 ^ unat nt" by (rule Min_minimizers_less[OF assms(2)])
  have n: "unat nt \<le> 15" using assms(2) by (simp add: word_le_nat_alt)
  have s: "unat (?b + 1) = Suc (unat ?b)" using l n by (rule unat_Suc_bin)
  obtain lo where lo: "at testing idx ?b = Returns lo"
    using at_in_range[of idx imem ?b testing] h assms(2) l by auto
  obtain hi where hi: "at testing idx (?b + 1) = Returns hi"
    using at_in_range[of idx imem "?b + 1" testing] h assms(2) l s by auto
  show "\<exists>b_key lo hi. bin_key db kmer = Returns b_key \<and> unat b_key < 4 ^ unat nt
               \<and> at testing idx b_key = Returns lo \<and> at testing idx (b_key + 1) = Returns hi"
    using b l lo hi by blast
qed

theorem bin_key_in_range_witness:
  "(1::u8) \<le> 2 \<and> (2::u8) \<le> 15 \<and> ucast (2::u8) \<le> key_bits S5_db div 2
   \<and> index_ptr S5_db = Some S5_index \<and> idx_nt S5_index = 2 \<and> idx_fptr S5_index = Some S5_index_file
   \<and> get_array + 8 * (4 ^ unat (2::u8) + 1) \<le> length S5_index_file
   \<and> (\<exists>b_key. bin_key_nt S5_db 27 (ucast (2::u8)) = Returns b_key \<and> unat b_key < 4 ^ unat (2::u8))
   \<and> (\<exists>b_key lo hi. bin_key S5_db 27 = Returns b_key \<and> unat b_key < 4 ^ unat (2::u8)
         \<and> at True S5_index b_key = Returns lo \<and> at True S5_index (b_key + 1) = Returns hi)"
proof -
  have h: "(1::u8) \<le> 2" "(2::u8) \<le> 15" "ucast (2::u8) \<le> key_bits S5_db div 2"
    by (simp_all add: S5_db_def)
  have i: "index_ptr S5_db = Some S5_index \<and> idx_nt S5_index = 2 \<and> idx_fptr S5_index = Some S5_index_file
     \<and> get_array + 8 * (4 ^ unat (2::u8) + 1) \<le> length S5_index_file"
    by (simp add: S5_db_def S5_index_def S5_index_file_def get_array_def KRAKEN_INDEX_STRING_def
        c_string_def store_le_def)
  note t = bin_key_in_range[OF h, of 27 True]
  show ?thesis
    using h i t[THEN conjunct1] t[THEN conjunct2, rule_format, OF i] by blast
qed

text \<open>
  C7. In a build with \<^verbatim>\<open>TESTING\<close>, \<^verbatim>\<open>at(i)\<close> should fail exactly when \<open>i > 4^nt\<close>. The
  guard of the code is \<^verbatim>\<open>idx > 1 + (1ull << (nt * 2))\<close>: on the index of the example
  (\<open>nt = 2\<close>, 17 offsets) index 16 is read, index 18 fails, and index 17, one past the
  last offset, passes the guard and is read outside the file.
\<close>

theorem at_testing_guard:
  "idx_nt S5_index = 2 \<and> length S5_index_file = get_array + 8 * (4 ^ 2 + 1)
   \<and> at True S5_index 16 = Returns 3
   \<and> at True S5_index 17 = Undefined OutOfBounds
   \<and> at True S5_index 18 = Errx EX_SOFTWARE ''KrakenDBIndex::at() called with illegal index''"
  by code_simp

section \<open>The query without retry\<close>

declare binary_search.simps [simp del]
declare linear_search.simps [simp del]
declare kmer_query.simps [simp del]

lemma kmer_query_False:
  "kmer_query testing db kmer l mn mx False =
     obind (bin_key db kmer) (\<lambda>b_key.
     obind (index_range testing db b_key) (\<lambda>(lo, hi).
     obind (hybrid_search db (get_pair_ptr db) kmer lo hi) (\<lambda>e.
       case e of Return answer \<Rightarrow> Returns (answer, l, mn, mx)
               | Fallthrough u \<Rightarrow> Returns (None, l, mn, mx))))"
  by (subst kmer_query.simps)
     (auto simp add: window_init_def obind_def split: outcome.splits loop_exit.splits prod.splits)

lemma kmer_query1_eq:
  "kmer_query1 testing db kmer =
     obind (bin_key db kmer) (\<lambda>b_key.
     obind (index_range testing db b_key) (\<lambda>(lo, hi).
     obind (hybrid_search db (get_pair_ptr db) kmer lo hi) (\<lambda>e.
       case e of Return answer \<Rightarrow> Returns answer | Fallthrough u \<Rightarrow> Returns None)))"
  by (auto simp add: kmer_query1_def kmer_query_False obind_def
      split: outcome.splits loop_exit.splits prod.splits)

lemma load_comp_kmer_not_null:
  "fptr db \<noteq> None \<Longrightarrow> ptr \<noteq> None \<Longrightarrow> load_comp_kmer db ptr mid \<noteq> Undefined NullPointer"
  by (auto simp add: load_comp_kmer_def pair_ptr_def split: option.splits)

lemma binary_search_not_null:
  "fptr db \<noteq> None \<Longrightarrow> ptr \<noteq> None \<Longrightarrow> binary_search db ptr kmer lo hi \<noteq> Undefined NullPointer"
proof (induction db ptr kmer lo hi rule: binary_search.induct)
  case (1 db ptr kmer lo hi)
  then show ?case
    using load_comp_kmer_not_null[of db ptr]
    by (subst binary_search.simps) (auto simp add: Let_def split: outcome.splits)
qed

lemma linear_search_not_null:
  "fptr db \<noteq> None \<Longrightarrow> ptr \<noteq> None \<Longrightarrow> linear_search db ptr kmer lo hi \<noteq> Undefined NullPointer"
proof (induction db ptr kmer lo hi rule: linear_search.induct)
  case (1 db ptr kmer lo hi)
  then show ?case
    using load_comp_kmer_not_null[of db ptr]
    by (subst linear_search.simps) (auto simp add: Let_def split: outcome.splits)
qed

lemma hybrid_search_not_null:
  "fptr db \<noteq> None \<Longrightarrow> ptr \<noteq> None \<Longrightarrow> hybrid_search db ptr kmer lo hi \<noteq> Undefined NullPointer"
  using binary_search_not_null[of db ptr kmer lo hi] linear_search_not_null[of db ptr kmer]
  by (auto simp add: hybrid_search_def obind_def split: outcome.splits loop_exit.splits)

lemma bin_key_body_not_null: "bin_key_body kbits nt xm kmer \<noteq> Undefined NullPointer"
  by (simp add: bin_key_body_def Let_def)

lemma at_not_null: "idx_fptr idx \<noteq> None \<Longrightarrow> at testing idx i \<noteq> Undefined NullPointer"
  by (auto simp add: at_def split: option.splits)

lemma index_range_not_null:
  "index_ptr db = Some idx \<Longrightarrow> idx_fptr idx \<noteq> None \<Longrightarrow> index_range testing db b \<noteq> Undefined NullPointer"
  using at_not_null[of idx testing]
  by (auto simp add: index_range_def obind_def split: outcome.splits)

lemma get_pair_ptr_not_null: "fptr db \<noteq> None \<Longrightarrow> get_pair_ptr db \<noteq> None"
  by (auto simp add: get_pair_ptr_def)

lemma kmer_query_False_not_null:
  assumes "fptr db \<noteq> None" "index_ptr db = Some idx" "idx_fptr idx \<noteq> None"
  shows "kmer_query testing db kmer l mn mx False \<noteq> Undefined NullPointer"
  using assms(2) bin_key_body_not_null index_range_not_null[OF assms(2,3), of testing]
    hybrid_search_not_null[OF assms(1) get_pair_ptr_not_null[OF assms(1)], of kmer]
  by (auto simp add: kmer_query_False obind_def bin_key_def
      split: outcome.splits loop_exit.splits prod.splits)

text \<open>
  C10. With \<^verbatim>\<open>retry_on_failure = false\<close> the query neither reads nor writes through its
  three pointer parameters: whatever they are, the answer is that of the call with three
  null pointers and the cells are unchanged. So the query with one parameter, which passes
  \<^verbatim>\<open>NULL\<close> three times, dereferences no null pointer when the database and its index are
  bound to mapped files.
\<close>

theorem kmer_query_no_retry:
  "kmer_query testing db kmer last_bin_key min_pos max_pos False
     = obind (kmer_query testing db kmer None None None False)
         (\<lambda>(answer, cells). Returns (answer, last_bin_key, min_pos, max_pos))
   \<and> kmer_query1 testing db kmer
     = obind (kmer_query testing db kmer last_bin_key min_pos max_pos False)
         (\<lambda>(answer, cells). Returns answer)
   \<and> (fptr db \<noteq> None \<and> (\<exists>idx. index_ptr db = Some idx \<and> idx_fptr idx \<noteq> None) \<longrightarrow>
        kmer_query testing db kmer None None None False \<noteq> Undefined NullPointer
        \<and> kmer_query1 testing db kmer \<noteq> Undefined NullPointer)"
proof (intro conjI impI)
  show "kmer_query testing db kmer last_bin_key min_pos max_pos False
     = obind (kmer_query testing db kmer None None None False)
         (\<lambda>(answer, cells). Returns (answer, last_bin_key, min_pos, max_pos))"
    by (auto simp add: kmer_query_False obind_def split: outcome.splits loop_exit.splits prod.splits)
  show "kmer_query1 testing db kmer
     = obind (kmer_query testing db kmer last_bin_key min_pos max_pos False)
         (\<lambda>(answer, cells). Returns answer)"
    by (auto simp add: kmer_query1_eq kmer_query_False obind_def
        split: outcome.splits loop_exit.splits prod.splits)
next
  assume h: "fptr db \<noteq> None \<and> (\<exists>idx. index_ptr db = Some idx \<and> idx_fptr idx \<noteq> None)"
  then obtain idx where i: "index_ptr db = Some idx" "idx_fptr idx \<noteq> None" by blast
  from h have f: "fptr db \<noteq> None" by simp
  show "kmer_query testing db kmer None None None False \<noteq> Undefined NullPointer"
    by (rule kmer_query_False_not_null[OF f i])
  then show "kmer_query1 testing db kmer \<noteq> Undefined NullPointer"
    by (auto simp add: kmer_query1_def obind_def split: outcome.splits)
qed

theorem kmer_query_no_retry_witness:
  "fptr S5_db \<noteq> None \<and> (\<exists>idx. index_ptr S5_db = Some idx \<and> idx_fptr idx \<noteq> None)
   \<and> kmer_query False S5_db 27 None None None False \<noteq> Undefined NullPointer
   \<and> kmer_query1 False S5_db 27 \<noteq> Undefined NullPointer
   \<and> kmer_query False S5_db 27 (Some 0) (Some 1) (Some 0) False
      = obind (kmer_query False S5_db 27 None None None False)
          (\<lambda>(answer, cells). Returns (answer, Some 0, Some 1, Some 0))"
proof -
  have h: "fptr S5_db \<noteq> None \<and> (\<exists>idx. index_ptr S5_db = Some idx \<and> idx_fptr idx \<noteq> None)"
    by (simp add: S5_db_def S5_index_def)
  note t = kmer_query_no_retry[of False S5_db 27 "Some 0" "Some 1" "Some 0"]
  show ?thesis
    using h t[THEN conjunct1] t[THEN conjunct2, THEN conjunct2, rule_format, OF h] by blast
qed

section \<open>Opening a database\<close>

lemma strncmp_eq:
  assumes "i + n = length s" "length s \<le> length mem" "0 \<notin> set s"
  shows "strncmp mem s i n = Returns (drop i (take (length s) mem) \<noteq> drop i s)"
  using assms
proof (induction n arbitrary: i)
  case 0
  then show ?case by simp
next
  case (Suc n)
  then have i: "i < length s" "i < length mem" by simp_all
  have nz: "s ! i \<noteq> 0" using Suc.prems(3) i(1) by (metis nth_mem)
  have a: "drop i (take (length s) mem) = mem ! i # drop (Suc i) (take (length s) mem)"
    using i by (simp add: Cons_nth_drop_Suc[symmetric])
  have b: "drop i s = s ! i # drop (Suc i) s"
    using i by (simp add: Cons_nth_drop_Suc[symmetric])
  have ih: "strncmp mem s (Suc i) n
      = Returns (drop (Suc i) (take (length s) mem) \<noteq> drop (Suc i) s)"
    using Suc.prems by (intro Suc.IH) simp_all
  show ?case
    using i nz by (simp add: a b ih Let_def)
qed

lemma magic_no_nul: "0 \<notin> set DATABASE_FILE_TYPE" "length DATABASE_FILE_TYPE = 8"
  by (simp_all add: DATABASE_FILE_TYPE_def c_string_def)

lemma strncmp_magic:
  assumes "8 \<le> length ptr"
  shows "strncmp ptr DATABASE_FILE_TYPE 0 (length DATABASE_FILE_TYPE)
     = Returns (take 8 ptr \<noteq> DATABASE_FILE_TYPE)"
  using strncmp_eq[of 0 "length DATABASE_FILE_TYPE" DATABASE_FILE_TYPE ptr] assms magic_no_nul
  by simp

lemma load_le_Some:
  "n \<le> 8 \<Longrightarrow> off + n \<le> length mem \<Longrightarrow> \<exists>v. load_le mem off n = Some v"
  by (simp add: load_le_def)

lemma load_le_take:
  "n \<le> 8 \<Longrightarrow> off + n \<le> m \<Longrightarrow> m \<le> length mem \<Longrightarrow> load_le (take m mem) off n = load_le mem off n"
  by (simp add: load_le_def drop_take min_def)

lemma KrakenDB_ctor_eq:
  assumes "56 \<le> length ptr"
  shows "\<exists>kb vl kc. load_le ptr 8 8 = Some kb \<and> load_le ptr 16 8 = Some vl \<and> load_le ptr 48 8 = Some kc
     \<and> KrakenDB_ctor ptr =
        (if take 8 ptr \<noteq> DATABASE_FILE_TYPE then Errx EX_DATAERR ''database in improper format''
         else if vl \<noteq> 4 then Errx EX_DATAERR ''can only handle 4 byte DB values''
         else Returns \<lparr>fptr = Some ptr, index_ptr = None, db_k = ucast (kb div 2),
                  key_bits = kb,
                  key_len = kb div 8 + (if kb mod 8 \<noteq> 0 then 1 else 0),
                  val_len = vl, key_ct = kc\<rparr>)"
proof -
  obtain kb where kb: "load_le ptr 8 8 = Some kb" using load_le_Some[of 8 8 ptr] assms by auto
  obtain vl where vl: "load_le ptr 16 8 = Some vl" using load_le_Some[of 8 16 ptr] assms by auto
  obtain kc where kc: "load_le ptr 48 8 = Some kc" using load_le_Some[of 8 48 ptr] assms by auto
  have "8 \<le> length ptr" using assms by simp
  then show ?thesis
    by (simp add: KrakenDB_ctor_def strncmp_magic kb vl kc obind_def)
qed

lemma ceil8: "(n + 7) div 8 = n div 8 + (if n mod 8 \<noteq> 0 then 1 else (0::nat))"
proof -
  obtain q r where q: "q = n div 8" and r: "r = n mod 8" by simp
  have n: "n = 8 * q + r" unfolding q r by simp
  have r8: "r < 8" unfolding r by simp
  show ?thesis
  proof (cases "r = 0")
    case True
    have "(n + 7) div 8 = q"
      by (rule div_nat_eqI) (use n True in simp_all)
    then show ?thesis using True unfolding q r by simp
  next
    case False
    have "(n + 7) div 8 = Suc q"
      by (rule div_nat_eqI) (use n False r8 in simp_all)
    then show ?thesis using False unfolding q r by simp
  qed
qed

lemma unat_key_len:
  fixes kb :: u64
  shows "unat (kb div 8 + (if kb mod 8 \<noteq> 0 then 1 else 0)) = (unat kb + 7) div 8"
proof -
  have d: "unat (kb div 8) = unat kb div 8" by (simp add: unat_div)
  have m: "unat (kb mod 8) = unat kb mod 8" by (simp add: unat_mod)
  have z: "kb mod 8 \<noteq> 0 \<longleftrightarrow> unat kb mod 8 \<noteq> 0"
    unfolding m[symmetric] by (simp add: unat_eq_0)
  have lt: "unat kb < 2 ^ 64" using unsigned_less[of kb, where 'a = nat] by simp
  have "unat kb div 8 + 1 < 2 ^ 64"
  proof (cases "unat kb = 0")
    case True
    then show ?thesis by simp
  next
    case False
    then have "unat kb div 8 < unat kb" by (intro div_less_dividend) simp_all
    then show ?thesis using lt by linarith
  qed
  then have "unat (kb div 8) + unat (1::u64) < 2 ^ LENGTH(64)" using d by simp
  then have "unat (kb div 8 + 1) = unat (kb div 8) + unat (1::u64)"
    by (rule unat_add_lem[THEN iffD1])
  then have s: "unat (kb div 8 + 1) = unat kb div 8 + 1" using d by simp
  show ?thesis
    unfolding ceil8 using z s d by simp
qed

lemma unat_db_k:
  fixes kb :: u64
  assumes "kb < 512"
  shows "unat (ucast (kb div 2) :: u8) = unat kb div 2"
proof -
  have "unat kb < 512" using assms by (simp add: word_less_nat_alt)
  then have "unat (kb div 2) < 2 ^ 8" by (simp add: unat_div)
  then show ?thesis by (simp add: unsigned_ucast_eq take_bit_nat_eq_self unat_div)
qed


lemma obind_no_errx:
  "m \<noteq> Errx c msg \<Longrightarrow> (\<And>x. f x \<noteq> Errx c msg) \<Longrightarrow> obind m f \<noteq> Errx c msg"
  by (cases m) (simp_all add: obind_def)

lemma load_comp_kmer_no_errx: "load_comp_kmer db ptr mid \<noteq> Errx c msg"
  by (simp add: load_comp_kmer_def split: option.splits prod.splits)

lemma binary_search_no_errx: "binary_search db ptr kmer lo hi \<noteq> Errx c msg"
proof (induction db ptr kmer lo hi rule: binary_search.induct)
  case (1 db ptr kmer lo hi)
  then show ?case
    using load_comp_kmer_no_errx[of db ptr]
    by (subst binary_search.simps) (auto simp add: Let_def split: outcome.splits)
qed

lemma linear_search_no_errx: "linear_search db ptr kmer lo hi \<noteq> Errx c msg"
proof (induction db ptr kmer lo hi rule: linear_search.induct)
  case (1 db ptr kmer lo hi)
  then show ?case
    using load_comp_kmer_no_errx[of db ptr]
    by (subst linear_search.simps) (auto simp add: Let_def split: outcome.splits)
qed

lemma hybrid_search_no_errx: "hybrid_search db ptr kmer lo hi \<noteq> Errx c msg"
  by (auto simp add: hybrid_search_def obind_def binary_search_no_errx linear_search_no_errx
      split: outcome.splits loop_exit.splits)

lemma bin_key_no_errx: "bin_key db kmer \<noteq> Errx c msg"
  by (simp add: bin_key_def bin_key_body_def Let_def split: option.splits)

lemma at_no_dataerr: "at testing idx i \<noteq> Errx EX_DATAERR msg"
  by (simp add: at_def EX_DATAERR_def EX_SOFTWARE_def split: option.splits)

lemma index_range_no_dataerr: "index_range testing db b \<noteq> Errx EX_DATAERR msg"
  by (auto simp add: index_range_def obind_def at_no_dataerr split: option.splits outcome.splits)

lemma kmer_query_False_no_dataerr:
  "kmer_query testing db kmer l mn mx False \<noteq> Errx EX_DATAERR msg"
  by (auto simp add: kmer_query_False obind_def bin_key_no_errx index_range_no_dataerr
      hybrid_search_no_errx split: outcome.splits loop_exit.splits prod.splits)

lemma window_init_no_dataerr:
  "window_init testing db kmer l mn mx retry \<noteq> Errx EX_DATAERR msg"
  by (auto simp add: window_init_def obind_def bin_key_no_errx index_range_no_dataerr
      split: option.splits outcome.splits prod.splits if_splits)

lemma kmer_query_no_dataerr:
  "kmer_query testing db kmer l mn mx retry \<noteq> Errx EX_DATAERR msg"
proof (cases retry)
  case False
  then show ?thesis by (simp add: kmer_query_False_no_dataerr)
next
  case True
  show ?thesis
    by (subst kmer_query.simps)
       (auto simp add: window_init_no_dataerr hybrid_search_no_errx bin_key_no_errx
          index_range_no_dataerr kmer_query_False_no_dataerr
          split: outcome.splits loop_exit.splits option.splits prod.splits)
qed


text \<open>
  C8, as amended. Over a region of at least 56 bytes the constructor terminates the
  process through \<^verbatim>\<open>errx\<close> with exit code \<^verbatim>\<open>EX_DATAERR\<close>, and nothing returns to the
  caller, exactly when the first 8 bytes differ from \<^verbatim>\<open>JFLISTDN\<close> or the \<open>val_len\<close> field
  differs from 4. Otherwise it returns the database with \<open>key_bits\<close>, \<open>val_len\<close> and
  \<open>key_ct\<close> as read, \<open>k\<close> the low 8 bits of \<open>key_bits / 2\<close> (the field is a
  \<^verbatim>\<open>uint8_t\<close>; that is \<open>key_bits / 2\<close> when \<open>key_bits < 512\<close>), and \<open>key_len\<close> the
  ceiling of \<open>key_bits / 8\<close>. The outcome depends on the first 56 bytes only, and no query
  exits with \<^verbatim>\<open>EX_DATAERR\<close>.
\<close>

theorem KrakenDB_ctor_format:
  assumes "56 \<le> length ptr"
  shows "((\<exists>msg. KrakenDB_ctor ptr = Errx EX_DATAERR msg)
            \<longleftrightarrow> take 8 ptr \<noteq> DATABASE_FILE_TYPE \<or> load_le ptr 16 8 \<noteq> Some 4)
       \<and> (take 8 ptr \<noteq> DATABASE_FILE_TYPE \<or> load_le ptr 16 8 \<noteq> Some 4
            \<longrightarrow> \<not> returns_to_caller (KrakenDB_ctor ptr))
       \<and> (take 8 ptr = DATABASE_FILE_TYPE \<and> load_le ptr 16 8 = Some 4 \<longrightarrow>
            (\<exists>db. KrakenDB_ctor ptr = Returns db \<and> fptr db = Some ptr
               \<and> load_le ptr 8 8 = Some (key_bits db) \<and> val_len db = 4
               \<and> load_le ptr 48 8 = Some (key_ct db)
               \<and> db_k db = ucast (key_bits db div 2)
               \<and> (key_bits db < 512 \<longrightarrow> unat (db_k db) = unat (key_bits db) div 2)
               \<and> unat (key_len db) = (unat (key_bits db) + 7) div 8))
       \<and> KrakenDB_ctor ptr
            = obind (KrakenDB_ctor (take 56 ptr)) (\<lambda>db. Returns (db\<lparr>fptr := Some ptr\<rparr>))
       \<and> (\<forall>testing db kmer last_bin_key min_pos max_pos retry_on_failure msg.
             kmer_query testing db kmer last_bin_key min_pos max_pos retry_on_failure
               \<noteq> Errx EX_DATAERR msg)"
proof -
  obtain kb vl kc where l: "load_le ptr 8 8 = Some kb" "load_le ptr 16 8 = Some vl"
      "load_le ptr 48 8 = Some kc"
    and c: "KrakenDB_ctor ptr =
        (if take 8 ptr \<noteq> DATABASE_FILE_TYPE then Errx EX_DATAERR ''database in improper format''
         else if vl \<noteq> 4 then Errx EX_DATAERR ''can only handle 4 byte DB values''
         else Returns \<lparr>fptr = Some ptr, index_ptr = None, db_k = ucast (kb div 2),
                  key_bits = kb,
                  key_len = kb div 8 + (if kb mod 8 \<noteq> 0 then 1 else 0),
                  val_len = vl, key_ct = kc\<rparr>)"
    using KrakenDB_ctor_eq[OF assms] by blast
  have t: "56 \<le> length (take 56 ptr)" using assms by simp
  have lt: "load_le (take 56 ptr) 8 8 = Some kb" "load_le (take 56 ptr) 16 8 = Some vl"
      "load_le (take 56 ptr) 48 8 = Some kc"
    using l assms by (simp_all add: load_le_take)
  have tt: "take 8 (take 56 ptr) = take 8 ptr" by simp
  have c56: "KrakenDB_ctor (take 56 ptr) =
        (if take 8 ptr \<noteq> DATABASE_FILE_TYPE then Errx EX_DATAERR ''database in improper format''
         else if vl \<noteq> 4 then Errx EX_DATAERR ''can only handle 4 byte DB values''
         else Returns \<lparr>fptr = Some (take 56 ptr), index_ptr = None, db_k = ucast (kb div 2),
                  key_bits = kb,
                  key_len = kb div 8 + (if kb mod 8 \<noteq> 0 then 1 else 0),
                  val_len = vl, key_ct = kc\<rparr>)"
    using KrakenDB_ctor_eq[OF t] unfolding lt tt by simp
  have 1: "(\<exists>msg. KrakenDB_ctor ptr = Errx EX_DATAERR msg)
            \<longleftrightarrow> take 8 ptr \<noteq> DATABASE_FILE_TYPE \<or> load_le ptr 16 8 \<noteq> Some 4"
    unfolding c l by simp
  have 2: "take 8 ptr \<noteq> DATABASE_FILE_TYPE \<or> load_le ptr 16 8 \<noteq> Some 4
            \<longrightarrow> \<not> returns_to_caller (KrakenDB_ctor ptr)"
    unfolding c l by (simp add: returns_to_caller_def)
  have 3: "take 8 ptr = DATABASE_FILE_TYPE \<and> load_le ptr 16 8 = Some 4 \<longrightarrow>
            (\<exists>db. KrakenDB_ctor ptr = Returns db \<and> fptr db = Some ptr
               \<and> load_le ptr 8 8 = Some (key_bits db) \<and> val_len db = 4
               \<and> load_le ptr 48 8 = Some (key_ct db)
               \<and> db_k db = ucast (key_bits db div 2)
               \<and> (key_bits db < 512 \<longrightarrow> unat (db_k db) = unat (key_bits db) div 2)
               \<and> unat (key_len db) = (unat (key_bits db) + 7) div 8)"
    unfolding c l by (simp add: unat_key_len unat_db_k)
  have 4: "KrakenDB_ctor ptr
            = obind (KrakenDB_ctor (take 56 ptr)) (\<lambda>db. Returns (db\<lparr>fptr := Some ptr\<rparr>))"
    unfolding c c56 by (simp add: obind_def)
  show ?thesis using 1 2 3 4 kmer_query_no_dataerr by blast
qed

text \<open>
  The claim as stated fails: on 56 zero bytes the bad format is not returned to the
  caller, the process exits; and with \<open>key_bits = 512\<close> the constructor succeeds with
  \<open>k = 0\<close>.
\<close>

theorem KrakenDB_ctor_exits:
  "KrakenDB_ctor (replicate 56 0) = Errx EX_DATAERR ''database in improper format''
   \<and> \<not> returns_to_caller (KrakenDB_ctor (replicate 56 0))
   \<and> KrakenDB_ctor (c_string ''JFLISTDN'' @ store_le 512 @ store_le 4 @ replicate 32 0)
      = Returns \<lparr>fptr = Some (c_string ''JFLISTDN'' @ store_le 512 @ store_le 4 @ replicate 32 0),
          index_ptr = None, db_k = 0, key_bits = 512, key_len = 64, val_len = 4, key_ct = 0\<rparr>"
  by code_simp

theorem KrakenDB_ctor_format_witness:
  "56 \<le> length S5_file \<and> take 8 S5_file = DATABASE_FILE_TYPE \<and> load_le S5_file 16 8 = Some 4
   \<and> (\<exists>db. KrakenDB_ctor S5_file = Returns db \<and> fptr db = Some S5_file
         \<and> load_le S5_file 8 8 = Some (key_bits db) \<and> val_len db = 4
         \<and> unat (key_len db) = (unat (key_bits db) + 7) div 8)
   \<and> \<not> (\<exists>msg. KrakenDB_ctor S5_file = Errx EX_DATAERR msg)"
proof -
  have h: "56 \<le> length S5_file" by (simp add: S5_file_def c_string_def store_le_def)
  have m: "take 8 S5_file = DATABASE_FILE_TYPE \<and> load_le S5_file 16 8 = Some 4" by code_simp
  note t = KrakenDB_ctor_format[OF h]
  show ?thesis
    using h m t[THEN conjunct1] t[THEN conjunct2, THEN conjunct2, THEN conjunct1, rule_format, OF m]
    by blast
qed

section \<open>Index builder\<close>

lemma unat_add_no_wrap:
  fixes a b :: u64
  assumes "unat a + unat b < 2 ^ 64"
  shows "unat (a + b) = unat a + unat b"
proof -
  have "unat a + unat b < 2 ^ LENGTH(64)" using assms by simp
  then show ?thesis by (rule unat_add_lem[THEN iffD1])
qed

lemma unat_mult_no_wrap:
  fixes a b :: u64
  assumes "unat a * unat b < 2 ^ 64"
  shows "unat (a * b) = unat a * unat b"
proof -
  have "unat a * unat b < 2 ^ LENGTH(64)" using assms by simp
  then show ?thesis by (rule unat_mult_lem[THEN iffD1])
qed

lemma unat_of_nat64: "n < 2 ^ 64 \<Longrightarrow> unat (word_of_nat n :: u64) = n"
  by (simp add: unat_of_nat)

lemma prefix_sums_length: "length (prefix_sums acc cs) = Suc (length cs)"
  by (induction cs arbitrary: acc) simp_all

lemma prefix_sums_nth:
  assumes "unat acc + sum_list (map unat cs) < 2 ^ 64" "i \<le> length cs"
  shows "unat (prefix_sums acc cs ! i) = unat acc + sum_list (map unat (take i cs))"
  using assms
proof (induction cs arbitrary: acc i)
  case Nil
  then show ?case by simp
next
  case (Cons c cs)
  show ?case
  proof (cases i)
    case 0
    then show ?thesis by simp
  next
    case (Suc j)
    have a: "unat (acc + c) = unat acc + unat c"
      using Cons.prems(1) by (intro unat_add_no_wrap) simp
    have "unat (prefix_sums (acc + c) cs ! j) = unat (acc + c) + sum_list (map unat (take j cs))"
      using Cons.prems Suc a by (intro Cons.IH) simp_all
    then show ?thesis using Suc a by simp
  qed
qed

lemma sum_list_take_le:
  fixes xs :: "nat list"
  shows "sum_list (take i xs) \<le> sum_list (take (Suc i) xs)"
proof (cases "i < length xs")
  case True
  then show ?thesis by (simp add: take_Suc_conv_app_nth)
next
  case False
  then show ?thesis by simp
qed

lemma sum_list_increment:
  fixes cs :: "u64 list"
  assumes "b < length cs" "sum_list (map unat cs) + 1 < 2 ^ 64"
  shows "sum_list (map unat (cs[b := cs ! b + 1])) = Suc (sum_list (map unat cs))"
proof -
  have "(map unat cs) ! b \<le> sum_list (map unat cs)"
    using assms(1) by (intro elem_le_sum_list) simp
  then have le: "unat (cs ! b) \<le> sum_list (map unat cs)" using assms(1) by simp
  then have u: "unat (cs ! b + 1) = Suc (unat (cs ! b))"
    using assms(2) unat_add_no_wrap[of "cs ! b" 1] by simp
  have "map unat (cs[b := cs ! b + 1]) = (map unat cs)[b := unat (cs ! b + 1)]"
    by (simp add: map_update)
  then have "sum_list (map unat (cs[b := cs ! b + 1]))
      = sum_list (map unat cs) + unat (cs ! b + 1) - (map unat cs) ! b"
    using assms(1) by (simp add: sum_list_update)
  then show ?thesis using u le assms(1) by simp
qed


lemma pair_load_in_bounds:
  assumes "length mem < 2 ^ 64"
    "unat (header_size db) + unat (key_ct db) * unat (pair_size db) \<le> length mem"
    "unat (key_len db) \<le> 8" "val_len db = 4" "i < unat (key_ct db)"
  shows "unat (word_of_nat i * pair_size db) = i * unat (pair_size db)"
    and "unat (header_size db) + i * unat (pair_size db) + unat (key_len db) + 4 \<le> length mem"
    and "\<exists>v. load_le mem (unat (header_size db) + unat (word_of_nat i * pair_size db)) (unat (key_len db)) = Some v"
proof -
  have ps: "unat (pair_size db) = unat (key_len db) + 4"
    using assms(3,4) unat_add_no_wrap[of "key_len db" 4] by (simp add: pair_size_def)
  have "Suc i * unat (pair_size db) \<le> unat (key_ct db) * unat (pair_size db)"
    using assms(5) by (intro mult_le_mono1) simp
  then have b: "unat (header_size db) + Suc i * unat (pair_size db) \<le> length mem"
    using assms(2) by linarith
  then have lt: "i * unat (pair_size db) < 2 ^ 64" using assms(1) by simp
  have i64: "i < 2 ^ 64" using assms(5) unsigned_less[of "key_ct db", where 'a = nat] by simp
  show m: "unat (word_of_nat i * pair_size db) = i * unat (pair_size db)"
    using lt unat_mult_no_wrap[of "word_of_nat i" "pair_size db"] by (simp add: unat_of_nat64[OF i64])
  show "unat (header_size db) + i * unat (pair_size db) + unat (key_len db) + 4 \<le> length mem"
    using b ps by simp
  then show "\<exists>v. load_le mem (unat (header_size db) + unat (word_of_nat i * pair_size db)) (unat (key_len db)) = Some v"
    using assms(3) unfolding m by (simp add: load_le_def)
qed

lemma count_bins_total:
  assumes "1 \<le> nt" "nt \<le> 15" "ucast nt \<le> key_bits db div 2"
    "fptr db = Some mem" "length mem < 2 ^ 64"
    "unat (header_size db) + unat (key_ct db) * unat (pair_size db) \<le> length mem"
    "unat (key_len db) \<le> 8" "val_len db = 4"
    "i + c \<le> unat (key_ct db)" "length counts = 4 ^ unat nt"
    "sum_list (map unat counts) + c < 2 ^ 64"
  shows "\<exists>counts'. count_bins db nt c i counts = Returns counts' \<and> length counts' = 4 ^ unat nt
           \<and> sum_list (map unat counts') = sum_list (map unat counts) + c"
  using assms(9-11)
proof (induction c arbitrary: i counts)
  case 0
  then show ?case by simp
next
  case (Suc c)
  have i: "i < unat (key_ct db)" using Suc.prems(1) by simp
  obtain kmer where kmer: "load_le mem (unat (header_size db) + unat (word_of_nat i * pair_size db))
      (unat (key_len db)) = Some kmer"
    using pair_load_in_bounds(3)[OF assms(5-8) i] by blast
  let ?b = "Min (minimizers (key_bits db) nt INDEX2_XOR_MASK kmer)"
  have b: "bin_key_nt db kmer (ucast nt) = Returns ?b" by (rule bin_key_nt_Min[OF assms(1-3)])
  have bl: "unat ?b < length counts"
    using Min_minimizers_less[OF assms(2)] Suc.prems(2) by simp
  let ?counts = "counts[unat ?b := counts ! unat ?b + 1]"
  have s: "sum_list (map unat ?counts) = Suc (sum_list (map unat counts))"
    using bl Suc.prems(3) by (intro sum_list_increment) simp_all
  have "\<exists>counts'. count_bins db nt c (Suc i) ?counts = Returns counts' \<and> length counts' = 4 ^ unat nt
           \<and> sum_list (map unat counts') = sum_list (map unat ?counts) + c"
    using Suc.prems s by (intro Suc.IH) simp_all
  then show ?case
    using assms(4) kmer b bl s by (simp add: get_pair_ptr_def)
qed


lemma sum_list_replicate_0: "sum_list (map unat (replicate n (0::u64))) = 0"
  by (induction n) simp_all

text \<open>
  C4. On a database whose file holds the \<open>key_ct\<close> pairs (keys of at most 8 bytes, values
  of 4), and for \<open>nt\<close> in \<open>[1,15]\<close> with \<open>nt \<le> key_bits / 2\<close>, \<^verbatim>\<open>make_index\<close> runs to
  the end; the offset array it writes after the header has \<open>4^nt + 1\<close> entries, starts
  with 0, does not decrease, and ends with \<open>key_ct\<close>.
\<close>

theorem make_index_offsets:
  assumes "1 \<le> nt" "nt \<le> 15" "ucast nt \<le> key_bits db div 2"
    "fptr db = Some mem" "length mem < 2 ^ 64"
    "unat (header_size db) + unat (key_ct db) * unat (pair_size db) \<le> length mem"
    "unat (key_len db) \<le> 8" "val_len db = 4"
  shows "\<exists>offsets. bin_offsets db nt = Returns offsets
      \<and> make_index db nt = Returns (KRAKEN_INDEX2_STRING @ [nt] @ concat (map store_le offsets))
      \<and> length offsets = 4 ^ unat nt + 1
      \<and> offsets ! 0 = 0
      \<and> (\<forall>i < 4 ^ unat nt. offsets ! i \<le> offsets ! (i + 1))
      \<and> offsets ! (4 ^ unat nt) = key_ct db"
proof -
  have n: "unat nt \<le> 15" using assms(2) by (simp add: word_le_nat_alt)
  then have sh: "\<not> 64 \<le> unat nt * 2" by simp
  have kc: "unat (key_ct db) < 2 ^ 64" using unsigned_less[of "key_ct db", where 'a = nat] by simp
  let ?init = "replicate (unat (push_bit (unat nt * 2) 1 :: u64)) (0::u64)"
  have init: "?init = replicate (4 ^ unat nt) 0"
    unfolding entries_eq[OF assms(2)] ..
  have "\<exists>counts'. count_bins db nt (unat (key_ct db)) 0 (replicate (4 ^ unat nt) 0) = Returns counts'
           \<and> length counts' = 4 ^ unat nt
           \<and> sum_list (map unat counts')
               = sum_list (map unat (replicate (4 ^ unat nt) (0::u64))) + unat (key_ct db)"
    using kc by (intro count_bins_total[OF assms]) (simp_all add: sum_list_replicate)
  then obtain counts where c: "count_bins db nt (unat (key_ct db)) 0 ?init = Returns counts"
    and len: "length counts = 4 ^ unat nt"
    and total: "sum_list (map unat counts) = unat (key_ct db)"
    unfolding init by (auto simp add: sum_list_replicate)
  let ?offs = "prefix_sums 0 counts"
  have bo: "bin_offsets db nt = Returns ?offs"
    unfolding bin_offsets_def Let_def c using sh by (simp add: obind_def)
  have mi: "make_index db nt = Returns (KRAKEN_INDEX2_STRING @ [nt] @ concat (map store_le ?offs))"
    by (simp add: make_index_def bo obind_def)
  have nth: "\<And>i. i \<le> 4 ^ unat nt \<Longrightarrow> unat (?offs ! i) = sum_list (map unat (take i counts))"
    using prefix_sums_nth[of 0 counts] total kc len by simp
  have l: "length ?offs = 4 ^ unat nt + 1" by (simp add: prefix_sums_length len)
  have z: "?offs ! 0 = 0" using nth[of 0] by (simp add: unat_eq_0)
  have mono: "\<forall>i < 4 ^ unat nt. ?offs ! i \<le> ?offs ! (i + 1)"
  proof (intro allI impI)
    fix i :: nat
    assume i: "i < 4 ^ unat nt"
    have "sum_list (take i (map unat counts)) \<le> sum_list (take (Suc i) (map unat counts))"
      by (rule sum_list_take_le)
    then have "unat (?offs ! i) \<le> unat (?offs ! (i + 1))"
      using nth[of i] nth[of "Suc i"] i by (simp add: take_map)
    then show "?offs ! i \<le> ?offs ! (i + 1)" by (simp add: word_le_nat_alt)
  qed
  have "unat (?offs ! (4 ^ unat nt)) = unat (key_ct db)"
    using nth[of "4 ^ unat nt"] len total by simp
  then have e: "?offs ! (4 ^ unat nt) = key_ct db" by (rule unsigned_word_eqI)
  show ?thesis using bo mi l z mono e by blast
qed

theorem make_index_offsets_witness:
  "(1::u8) \<le> 2 \<and> (2::u8) \<le> 15 \<and> ucast (2::u8) \<le> key_bits S5_db div 2
   \<and> fptr S5_db = Some S5_file \<and> length S5_file < 2 ^ 64
   \<and> unat (header_size S5_db) + unat (key_ct S5_db) * unat (pair_size S5_db) \<le> length S5_file
   \<and> unat (key_len S5_db) \<le> 8 \<and> val_len S5_db = 4
   \<and> (\<exists>offsets. make_index S5_db 2 = Returns (KRAKEN_INDEX2_STRING @ [2] @ concat (map store_le offsets))
         \<and> length offsets = 4 ^ unat (2::u8) + 1 \<and> offsets ! 0 = 0
         \<and> offsets ! (4 ^ unat (2::u8)) = key_ct S5_db)"
proof -
  have h: "(1::u8) \<le> 2" "(2::u8) \<le> 15" "ucast (2::u8) \<le> key_bits S5_db div 2"
    "fptr S5_db = Some S5_file" "length S5_file < 2 ^ 64"
    "unat (header_size S5_db) + unat (key_ct S5_db) * unat (pair_size S5_db) \<le> length S5_file"
    "unat (key_len S5_db) \<le> 8" "val_len S5_db = 4"
    by (simp_all add: S5_db_def S5_file_def c_string_def store_le_def header_size_def pair_size_def)
  show ?thesis using h make_index_offsets[OF h] by blast
qed

section \<open>Reading keys and searching a window\<close>

lemma database_okD:
  assumes "database_ok db"
  obtains mem where "fptr db = Some mem" "length mem < 2 ^ 64"
    "pair_offset db (unat (key_ct db)) \<le> length mem" "key_bits db \<le> 64"
    "unat (key_len db) = (unat (key_bits db) + 7) div 8" "val_len db = 4"
  using assms by (auto simp add: database_ok_def split: option.splits)

lemma key_len_le_8:
  assumes "database_ok db"
  shows "unat (key_len db) \<le> 8"
proof -
  obtain mem where k: "key_bits db \<le> 64" "unat (key_len db) = (unat (key_bits db) + 7) div 8"
    using assms by (rule database_okD)
  have "unat (key_bits db) \<le> 64" using k(1) by (simp add: word_le_nat_alt)
  then have "(unat (key_bits db) + 7) div 8 \<le> 71 div 8" by (intro div_le_mono) simp
  then show ?thesis using k(2) by simp
qed

lemma pair_in_file:
  assumes "database_ok db" "fptr db = Some mem" "i < unat (key_ct db)"
  shows "unat (pair_size db * word_of_int (int i)) = i * unat (pair_size db)"
    and "pair_offset db i + unat (key_len db) + 4 \<le> length mem"
    and "pair_ptr db (get_pair_ptr db) (int i) = Some (pair_offset db i)"
    and "value_ptr db (get_pair_ptr db) (int i) = Some (pair_offset db i + unat (key_len db))"
proof -
  obtain mem' where d: "fptr db = Some mem'" "length mem' < 2 ^ 64"
    "pair_offset db (unat (key_ct db)) \<le> length mem'" "val_len db = 4"
    using assms(1) by (rule database_okD)
  have mem: "mem' = mem" using d(1) assms(2) by simp
  note b = pair_load_in_bounds[OF d(2) d(3)[unfolded pair_offset_def] key_len_le_8[OF assms(1)] d(4) assms(3)]
  show m: "unat (pair_size db * word_of_int (int i)) = i * unat (pair_size db)"
    using b(1) by (simp add: mult.commute)
  show "pair_offset db i + unat (key_len db) + 4 \<le> length mem"
    using b(2) mem by (simp add: pair_offset_def)
  show p: "pair_ptr db (get_pair_ptr db) (int i) = Some (pair_offset db i)"
    using m assms(2) by (simp add: pair_ptr_def get_pair_ptr_def pair_offset_def)
  show "value_ptr db (get_pair_ptr db) (int i) = Some (pair_offset db i + unat (key_len db))"
    using p by (simp add: value_ptr_def)
qed

lemma key_mask: "(w::u64) AND (2 ^ n - 1) = take_bit n w"
  by (simp add: take_bit_eq_mask mask_eq_exp_minus_1)

lemma load_comp_kmer_stored:
  assumes "database_ok db" "key_bits db < 64" "i < unat (key_ct db)"
  shows "load_comp_kmer db (get_pair_ptr db) (int i) = Returns (stored_key db i)"
proof -
  obtain mem where mem: "fptr db = Some mem" using assms(1) by (rule database_okD)
  note p = pair_in_file[OF assms(1) mem assms(3)]
  have "pair_offset db i + unat (key_len db) \<le> length mem" using p(2) by simp
  then obtain raw where raw: "load_le mem (pair_offset db i) (unat (key_len db)) = Some raw"
    using key_len_le_8[OF assms(1)] by (auto simp add: load_le_def)
  have kb: "unat (key_bits db) < 64" "\<not> 64 \<le> key_bits db"
    using assms(2) by (simp_all add: word_less_nat_alt not_le)
  show ?thesis
    using mem p(3) raw kb by (simp add: load_comp_kmer_def stored_key_def key_mask)
qed

lemma stored_value_Some:
  assumes "database_ok db" "i < unat (key_ct db)"
  shows "\<exists>v. stored_value db i = Some v"
proof -
  obtain mem where mem: "fptr db = Some mem" using assms(1) by (rule database_okD)
  note p = pair_in_file[OF assms(1) mem assms(2)]
  show ?thesis using mem p(2) by (simp add: stored_value_def deref_u32_def load_le_def)
qed

lemma load_comp_kmer_window:
  assumes "database_ok db" "key_bits db < 64" "0 \<le> m" "m < int (unat (key_ct db))"
  shows "load_comp_kmer db (get_pair_ptr db) m = Returns (stored_key db (nat m))"
proof -
  have "nat m < unat (key_ct db)" using assms(3,4) by (simp add: nat_less_iff)
  then show ?thesis using load_comp_kmer_stored[OF assms(1,2), of "nat m"] assms(3) by simp
qed

lemma increasing_on_sub:
  "increasing_on db lo hi \<Longrightarrow> lo \<le> lo' \<Longrightarrow> hi' \<le> hi \<Longrightarrow> increasing_on db lo' hi'"
  by (simp add: increasing_on_def)

lemma binary_search_step:
  assumes "database_ok db" "key_bits db < 64" "ptr = get_pair_ptr db" "0 \<le> lo"
    "hi < int (unat (key_ct db))" "lo + 15 \<le> hi" "mid = lo + (hi - lo) div 2"
  shows "lo \<le> mid" "mid \<le> hi"
    "binary_search db ptr x lo hi =
       (if stored_key db (nat mid) < x then binary_search db ptr x (mid + 1) hi
        else if x < stored_key db (nat mid) then binary_search db ptr x lo (mid - 1)
        else Returns (Return (value_ptr db ptr mid)))"
proof -
  show mid: "lo \<le> mid" "mid \<le> hi" using assms(6,7) by simp_all
  have "load_comp_kmer db ptr mid = Returns (stored_key db (nat mid))"
    using load_comp_kmer_window[OF assms(1,2), of mid] assms(3,4,5) mid by simp
  then show "binary_search db ptr x lo hi =
       (if stored_key db (nat mid) < x then binary_search db ptr x (mid + 1) hi
        else if x < stored_key db (nat mid) then binary_search db ptr x lo (mid - 1)
        else Returns (Return (value_ptr db ptr mid)))"
    using assms(6) by (subst binary_search.simps) (simp add: assms(7) Let_def)
qed

lemma binary_search_done:
  "\<not> lo + 15 \<le> hi \<Longrightarrow> binary_search db ptr x lo hi = Returns (Fallthrough (lo, hi))"
  by (subst binary_search.simps) simp

lemma binary_search_sound:
  assumes "database_ok db" "key_bits db < 64" "ptr = get_pair_ptr db"
  shows "0 \<le> lo \<Longrightarrow> hi < int (unat (key_ct db)) \<Longrightarrow>
     (\<exists>m. lo \<le> m \<and> m \<le> hi \<and> stored_key db (nat m) = x
          \<and> binary_search db ptr x lo hi = Returns (Return (value_ptr db ptr m)))
     \<or> (\<exists>lo' hi'. binary_search db ptr x lo hi = Returns (Fallthrough (lo', hi'))
          \<and> lo \<le> lo' \<and> hi' \<le> hi)"
proof (induction "nat (hi - lo)" arbitrary: lo hi rule: less_induct)
  case less
  show ?case
  proof (cases "lo + 15 \<le> hi")
    case False
    show ?thesis
      unfolding binary_search_done[OF False] by blast
  next
    case True
    define mid where "mid = lo + (hi - lo) div 2"
    note st = binary_search_step[OF assms less.prems True mid_def]
    consider (lt) "stored_key db (nat mid) < x" | (gt) "x < stored_key db (nat mid)"
      | (eq) "stored_key db (nat mid) = x"
      using linorder_less_linear by blast
    then show ?thesis
    proof cases
      case lt
      have bs: "binary_search db ptr x lo hi = binary_search db ptr x (mid + 1) hi"
        using st(3) lt by simp
      have "nat (hi - (mid + 1)) < nat (hi - lo)" using st(1,2) True by linarith
      moreover have "0 \<le> mid + 1" using st(1) less.prems(1) by linarith
      ultimately have "(\<exists>m. mid + 1 \<le> m \<and> m \<le> hi \<and> stored_key db (nat m) = x
          \<and> binary_search db ptr x (mid + 1) hi = Returns (Return (value_ptr db ptr m)))
       \<or> (\<exists>lo' hi'. binary_search db ptr x (mid + 1) hi = Returns (Fallthrough (lo', hi'))
          \<and> mid + 1 \<le> lo' \<and> hi' \<le> hi)"
        using less.prems(2) by (intro less.hyps)
      then show ?thesis
      proof (elim disjE exE conjE)
        fix m
        assume m: "mid + 1 \<le> m" "m \<le> hi" "stored_key db (nat m) = x"
          "binary_search db ptr x (mid + 1) hi = Returns (Return (value_ptr db ptr m))"
        have "lo \<le> m" using m(1) st(1) by linarith
        then show ?thesis unfolding bs using m(2,3,4) by blast
      next
        fix lo' hi'
        assume f: "binary_search db ptr x (mid + 1) hi = Returns (Fallthrough (lo', hi'))"
          "mid + 1 \<le> lo'" "hi' \<le> hi"
        have "lo \<le> lo'" using f(2) st(1) by linarith
        then show ?thesis unfolding bs using f(1,3) by blast
      qed
    next
      case gt
      have "\<not> stored_key db (nat mid) < x" using gt by simp
      then have bs: "binary_search db ptr x lo hi = binary_search db ptr x lo (mid - 1)"
        using st(3) gt by simp
      have "nat ((mid - 1) - lo) < nat (hi - lo)" using st(1,2) True by linarith
      moreover have "mid - 1 < int (unat (key_ct db))" using st(2) less.prems(2) by linarith
      ultimately have "(\<exists>m. lo \<le> m \<and> m \<le> mid - 1 \<and> stored_key db (nat m) = x
          \<and> binary_search db ptr x lo (mid - 1) = Returns (Return (value_ptr db ptr m)))
       \<or> (\<exists>lo' hi'. binary_search db ptr x lo (mid - 1) = Returns (Fallthrough (lo', hi'))
          \<and> lo \<le> lo' \<and> hi' \<le> mid - 1)"
        using less.prems(1) by (intro less.hyps)
      then show ?thesis
      proof (elim disjE exE conjE)
        fix m
        assume m: "lo \<le> m" "m \<le> mid - 1" "stored_key db (nat m) = x"
          "binary_search db ptr x lo (mid - 1) = Returns (Return (value_ptr db ptr m))"
        have "m \<le> hi" using m(2) st(2) by linarith
        then show ?thesis unfolding bs using m(1,3,4) by blast
      next
        fix lo' hi'
        assume f: "binary_search db ptr x lo (mid - 1) = Returns (Fallthrough (lo', hi'))"
          "lo \<le> lo'" "hi' \<le> mid - 1"
        have "hi' \<le> hi" using f(3) st(2) by linarith
        then show ?thesis unfolding bs using f(1,2) by blast
      qed
    next
      case eq
      have "binary_search db ptr x lo hi = Returns (Return (value_ptr db ptr mid))"
        using st(3) eq by simp
      then show ?thesis using st(1,2) eq by blast
    qed
  qed
qed

lemma excl_low:
  assumes "increasing_on db lo hi" "lo \<le> m" "m \<le> mid" "mid \<le> hi"
    "stored_key db (nat mid) < x"
  shows "stored_key db (nat m) \<noteq> x"
proof (cases "m = mid")
  case True
  show ?thesis unfolding True using assms(5) by (rule less_imp_neq)
next
  case False
  then have "m < mid" using assms(3) by linarith
  then have "stored_key db (nat m) < stored_key db (nat mid)"
    using assms(1,2,4) unfolding increasing_on_def by blast
  then have "stored_key db (nat m) < x" using assms(5) by (rule less_trans)
  then show ?thesis by (rule less_imp_neq)
qed

lemma excl_high:
  assumes "increasing_on db lo hi" "lo \<le> mid" "mid \<le> m" "m \<le> hi"
    "x < stored_key db (nat mid)"
  shows "stored_key db (nat m) \<noteq> x"
proof (cases "m = mid")
  case True
  show ?thesis unfolding True using assms(5) by (rule less_imp_neq[symmetric])
next
  case False
  then have "mid < m" using assms(3) by linarith
  then have "stored_key db (nat mid) < stored_key db (nat m)"
    using assms(1,2,4) unfolding increasing_on_def by blast
  with assms(5) have "x < stored_key db (nat m)" by (rule less_trans)
  then show ?thesis by (rule less_imp_neq[symmetric])
qed


lemma binary_search_complete:
  assumes "database_ok db" "key_bits db < 64" "ptr = get_pair_ptr db"
  shows "0 \<le> lo \<Longrightarrow> hi < int (unat (key_ct db)) \<Longrightarrow> increasing_on db lo hi \<Longrightarrow>
     lo \<le> m \<Longrightarrow> m \<le> hi \<Longrightarrow> stored_key db (nat m) = x \<Longrightarrow>
     binary_search db ptr x lo hi = Returns (Fallthrough (lo', hi')) \<Longrightarrow> lo' \<le> m \<and> m \<le> hi'"
proof (induction "nat (hi - lo)" arbitrary: lo hi rule: less_induct)
  case less
  show ?case
  proof (cases "lo + 15 \<le> hi")
    case False
    from less.prems(7)[unfolded binary_search_done[OF False]]
    have "lo' = lo" "hi' = hi" by simp_all
    then show ?thesis
      using less.prems(4,5) by simp
  next
    case True
    define mid where "mid = lo + (hi - lo) div 2"
    note st = binary_search_step[OF assms less.prems(1,2) True mid_def]
    consider (lt) "stored_key db (nat mid) < x" | (gt) "x < stored_key db (nat mid)"
      | (eq) "stored_key db (nat mid) = x"
      using linorder_less_linear by blast
    then show ?thesis
    proof cases
      case lt
      have bs: "binary_search db ptr x lo hi = binary_search db ptr x (mid + 1) hi"
        using st(3) lt by simp
      have "\<not> m \<le> mid"
        using excl_low[OF less.prems(3,4) _ st(2) lt] less.prems(6) by blast
      then have m: "mid + 1 \<le> m" by linarith
      have d: "nat (hi - (mid + 1)) < nat (hi - lo)" using st(1,2) True by linarith
      have z: "0 \<le> mid + 1" using st(1) less.prems(1) by linarith
      have inc: "increasing_on db (mid + 1) hi"
        using less.prems(3) by (rule increasing_on_sub) (use st(1) in simp_all)
      have "binary_search db ptr x (mid + 1) hi = Returns (Fallthrough (lo', hi'))"
        using less.prems(7) unfolding bs .
      then show ?thesis
        by (rule less.hyps[OF d z less.prems(2) inc m less.prems(5,6)])
    next
      case gt
      have "\<not> stored_key db (nat mid) < x" using gt by simp
      then have bs: "binary_search db ptr x lo hi = binary_search db ptr x lo (mid - 1)"
        using st(3) gt by simp
      have "\<not> mid \<le> m"
        using excl_high[OF less.prems(3) st(1) _ less.prems(5) gt] less.prems(6) by blast
      then have m: "m \<le> mid - 1" by linarith
      have d: "nat ((mid - 1) - lo) < nat (hi - lo)" using st(1,2) True by linarith
      have z: "mid - 1 < int (unat (key_ct db))" using st(2) less.prems(2) by linarith
      have inc: "increasing_on db lo (mid - 1)"
        using less.prems(3) by (rule increasing_on_sub) (use st(2) in simp_all)
      have "binary_search db ptr x lo (mid - 1) = Returns (Fallthrough (lo', hi'))"
        using less.prems(7) unfolding bs .
      then show ?thesis
        by (rule less.hyps[OF d less.prems(1) z inc less.prems(4) m less.prems(6)])
    next
      case eq
      have "binary_search db ptr x lo hi = Returns (Return (value_ptr db ptr mid))"
        using st(3) eq by simp
      from less.prems(7)[unfolded this] show ?thesis by simp
    qed
  qed
qed

lemma linear_search_done:
  "\<not> lo \<le> hi \<Longrightarrow> linear_search db ptr x lo hi = Returns (Fallthrough ())"
  by (subst linear_search.simps) simp
lemma linear_search_step:
  assumes "database_ok db" "key_bits db < 64" "ptr = get_pair_ptr db" "0 \<le> lo"
    "hi < int (unat (key_ct db))" "lo \<le> hi"
  shows "linear_search db ptr x lo hi =
       (if x = stored_key db (nat lo) then Returns (Return (value_ptr db ptr lo))
        else linear_search db ptr x (lo + 1) hi)"
proof -
  have "load_comp_kmer db ptr lo = Returns (stored_key db (nat lo))"
    using load_comp_kmer_window[OF assms(1,2), of lo] assms(3,4,5,6) by simp
  then show ?thesis
    using assms(6) by (subst linear_search.simps) simp
qed
lemma linear_search_spec:
  assumes "database_ok db" "key_bits db < 64" "ptr = get_pair_ptr db"
  shows "0 \<le> lo \<Longrightarrow> hi < int (unat (key_ct db)) \<Longrightarrow>
     (\<exists>m. lo \<le> m \<and> m \<le> hi \<and> stored_key db (nat m) = x
          \<and> linear_search db ptr x lo hi = Returns (Return (value_ptr db ptr m)))
     \<or> (linear_search db ptr x lo hi = Returns (Fallthrough ())
          \<and> (\<forall>m. lo \<le> m \<and> m \<le> hi \<longrightarrow> stored_key db (nat m) \<noteq> x))"
proof (induction "nat (hi + 1 - lo)" arbitrary: lo rule: less_induct)
  case less
  show ?case
  proof (cases "lo \<le> hi")
    case False
    then have "\<forall>m. lo \<le> m \<and> m \<le> hi \<longrightarrow> stored_key db (nat m) \<noteq> x" by auto
    then show ?thesis unfolding linear_search_done[OF False] by blast
  next
    case True
    note st = linear_search_step[OF assms less.prems True, of x]
    show ?thesis
    proof (cases "stored_key db (nat lo) = x")
      case eq: True
      then have "linear_search db ptr x lo hi = Returns (Return (value_ptr db ptr lo))"
        using st by auto
      moreover have "lo \<le> lo" by simp
      ultimately show ?thesis using eq True by blast
    next
      case ne: False
      then have ls: "linear_search db ptr x lo hi = linear_search db ptr x (lo + 1) hi"
        using st by auto
      have d: "nat (hi + 1 - (lo + 1)) < nat (hi + 1 - lo)" using True by linarith
      have z: "0 \<le> lo + 1" using less.prems(1) by linarith
      from less.hyps[OF d z less.prems(2)] show ?thesis
      proof (elim disjE exE conjE)
        fix m
        assume m: "lo + 1 \<le> m" "m \<le> hi" "stored_key db (nat m) = x"
          "linear_search db ptr x (lo + 1) hi = Returns (Return (value_ptr db ptr m))"
        have "lo \<le> m" using m(1) by linarith
        then show ?thesis unfolding ls using m(2,3,4) by blast
      next
        assume f: "linear_search db ptr x (lo + 1) hi = Returns (Fallthrough ())"
          "\<forall>m. lo + 1 \<le> m \<and> m \<le> hi \<longrightarrow> stored_key db (nat m) \<noteq> x"
        have "\<forall>m. lo \<le> m \<and> m \<le> hi \<longrightarrow> stored_key db (nat m) \<noteq> x"
        proof (intro allI impI)
          fix m assume m: "lo \<le> m \<and> m \<le> hi"
          show "stored_key db (nat m) \<noteq> x"
          proof (cases "m = lo")
            case True
            then show ?thesis using ne by simp
          next
            case False
            then have "lo + 1 \<le> m" using m by linarith
            then show ?thesis using f(2) m by blast
          qed
        qed
        then show ?thesis unfolding ls using f(1) by blast
      qed
    qed
  qed
qed
lemma hybrid_search_spec:
  assumes "database_ok db" "key_bits db < 64" "ptr = get_pair_ptr db"
    "0 \<le> lo" "hi < int (unat (key_ct db))"
  shows "(\<exists>m. lo \<le> m \<and> m \<le> hi \<and> stored_key db (nat m) = x
          \<and> hybrid_search db ptr x lo hi = Returns (Return (value_ptr db ptr m)))
     \<or> (hybrid_search db ptr x lo hi = Returns (Fallthrough ())
          \<and> (increasing_on db lo hi \<longrightarrow> (\<forall>m. lo \<le> m \<and> m \<le> hi \<longrightarrow> stored_key db (nat m) \<noteq> x)))"
  using binary_search_sound[OF assms(1,2,3,4,5), of x]
proof (elim disjE exE conjE)
  fix m
  assume m: "lo \<le> m" "m \<le> hi" "stored_key db (nat m) = x"
    "binary_search db ptr x lo hi = Returns (Return (value_ptr db ptr m))"
  have "hybrid_search db ptr x lo hi = Returns (Return (value_ptr db ptr m))"
    by (simp add: hybrid_search_def m(4) obind_def)
  then show ?thesis using m(1,2,3) by blast
next
  fix lo' hi'
  assume f: "binary_search db ptr x lo hi = Returns (Fallthrough (lo', hi'))" "lo \<le> lo'" "hi' \<le> hi"
  have h: "hybrid_search db ptr x lo hi = linear_search db ptr x lo' hi'"
    by (simp add: hybrid_search_def f(1) obind_def)
  have z: "0 \<le> lo'" "hi' < int (unat (key_ct db))" using f(2,3) assms(4,5) by linarith+
  from linear_search_spec[OF assms(1,2,3) z, of x] show ?thesis
  proof (elim disjE exE conjE)
    fix m
    assume m: "lo' \<le> m" "m \<le> hi'" "stored_key db (nat m) = x"
      "linear_search db ptr x lo' hi' = Returns (Return (value_ptr db ptr m))"
    have "lo \<le> m" "m \<le> hi" using m(1,2) f(2,3) by linarith+
    then show ?thesis unfolding h using m(3,4) by blast
  next
    assume l: "linear_search db ptr x lo' hi' = Returns (Fallthrough ())"
      "\<forall>m. lo' \<le> m \<and> m \<le> hi' \<longrightarrow> stored_key db (nat m) \<noteq> x"
    have "increasing_on db lo hi \<longrightarrow> (\<forall>m. lo \<le> m \<and> m \<le> hi \<longrightarrow> stored_key db (nat m) \<noteq> x)"
    proof (intro impI allI notI)
      fix m
      assume inc: "increasing_on db lo hi" and m: "lo \<le> m \<and> m \<le> hi"
        and e: "stored_key db (nat m) = x"
      have "lo' \<le> m \<and> m \<le> hi'"
        using binary_search_complete[OF assms(1,2,3,4,5) inc _ _ e f(1)] m by blast
      then show False using l(2) e by blast
    qed
    then show ?thesis unfolding h using l(1) by blast
  qed
qed
lemma hybrid_search_hit:
  assumes "database_ok db" "key_bits db < 64" "ptr = get_pair_ptr db"
    "0 \<le> lo" "hi < int (unat (key_ct db))" "increasing_on db lo hi"
    "lo \<le> i" "i \<le> hi" "stored_key db (nat i) = x"
  shows "hybrid_search db ptr x lo hi = Returns (Return (value_ptr db ptr i))"
  using hybrid_search_spec[OF assms(1-5), of x]
proof (elim disjE exE conjE)
  fix m
  assume m: "lo \<le> m" "m \<le> hi" "stored_key db (nat m) = x"
    "hybrid_search db ptr x lo hi = Returns (Return (value_ptr db ptr m))"
  have "m = i"
  proof (rule ccontr)
    assume "m \<noteq> i"
    then have "m < i \<or> i < m" by linarith
    then show False
    proof
      assume "m < i"
      then have "stored_key db (nat m) < stored_key db (nat i)"
        using assms(6,8) m(1) unfolding increasing_on_def by blast
      then show False using m(3) assms(9) by simp
    next
      assume "i < m"
      then have "stored_key db (nat i) < stored_key db (nat m)"
        using assms(6,7) m(2) unfolding increasing_on_def by blast
      then show False using m(3) assms(9) by simp
    qed
  qed
  then show ?thesis using m(4) by simp
next
  assume "increasing_on db lo hi \<longrightarrow> (\<forall>m. lo \<le> m \<and> m \<le> hi \<longrightarrow> stored_key db (nat m) \<noteq> x)"
  then show ?thesis using assms(6-9) by blast
qed
lemma hybrid_search_miss:
  assumes "database_ok db" "key_bits db < 64" "ptr = get_pair_ptr db"
    "0 \<le> lo" "hi < int (unat (key_ct db))"
    "\<forall>m. lo \<le> m \<and> m \<le> hi \<longrightarrow> stored_key db (nat m) \<noteq> x"
  shows "hybrid_search db ptr x lo hi = Returns (Fallthrough ())"
  using hybrid_search_spec[OF assms(1-5), of x] assms(6) by blast

section \<open>The bound index\<close>

lemma sint_small:
  fixes w :: u64
  assumes "unat w < 2 ^ 63"
  shows "sint w = int (unat w)"
proof -
  have "int (unat w) < int (2 ^ 63)" using assms by (simp only: of_nat_less_iff)
  then have "uint w < 2 ^ 63" by simp
  moreover have "- (2 ^ 63) \<le> uint w" by (rule order_trans[of _ 0]) simp_all
  ultimately have "signed_take_bit 63 (uint w) = uint w" by (rule signed_take_bit_int_eq_self[rotated])
  then show ?thesis by (simp add: sint_uint)
qed

lemma sint_pred:
  fixes w :: u64
  assumes "unat w < 2 ^ 63"
  shows "sint (w - 1) = int (unat w) - 1"
proof (cases "w = 0")
  case True
  then show ?thesis by simp
next
  case False
  then have "1 \<le> w" by (simp add: word_le_nat_alt unat_gt_0 Suc_le_eq)
  then have u: "unat (w - 1) = unat w - 1" by (simp add: unat_sub)
  have "0 < unat w" using False by (simp add: unat_gt_0)
  then have "int (unat w - 1) = int (unat w) - 1" by simp
  moreover have "unat (w - 1) < 2 ^ 63" using u assms by simp
  ultimately show ?thesis using u by (simp add: sint_small)
qed

lemma index_okD:
  assumes "index_ok db"
  obtains idx imem where "index_ptr db = Some idx" "1 \<le> idx_nt idx" "idx_nt idx \<le> 15"
    "ucast (idx_nt idx) \<le> key_bits db div 2" "idx_fptr idx = Some imem"
    "get_array + 8 * (4 ^ unat (idx_nt idx) + 1) \<le> length imem"
    "bin_offset db 0 = 0"
    "\<And>b. b < 4 ^ unat (idx_nt idx) \<Longrightarrow> bin_offset db b \<le> bin_offset db (Suc b)"
    "bin_offset db (4 ^ unat (idx_nt idx)) = unat (key_ct db)"
  using assms by (auto simp add: index_ok_def split: option.splits)

lemma unat_of_nat_bin:
  assumes "b \<le> 4 ^ n" "n \<le> 15"
  shows "unat (word_of_nat b :: u64) = b"
proof -
  have "(4::nat) ^ n \<le> 4 ^ 15" using assms(2) by (rule power_increasing) simp
  then have "b < 2 ^ 64" using assms(1) by simp
  then show ?thesis by (rule unat_of_nat64)
qed

lemma at_bin_offset:
  assumes "index_ok db" "index_ptr db = Some idx" "unat i \<le> 4 ^ unat (idx_nt idx)"
  shows "\<exists>v. at testing idx i = Returns v \<and> unat v = bin_offset db (unat i)"
proof -
  obtain idx' imem where i: "index_ptr db = Some idx'" "idx_nt idx' \<le> 15" "idx_fptr idx' = Some imem"
    "get_array + 8 * (4 ^ unat (idx_nt idx') + 1) \<le> length imem"
    using assms(1) by (rule index_okD) blast
  have e: "idx' = idx" using i(1) assms(2) by simp
  obtain v where v: "at testing idx i = Returns v" "load_le imem (get_array + 8 * unat i) 8 = Some v"
    using at_in_range[OF i(2,3,4)[unfolded e] assms(3), of testing] by blast
  obtain v' where v': "at False idx i = Returns v'" "load_le imem (get_array + 8 * unat i) 8 = Some v'"
    using at_in_range[OF i(2,3,4)[unfolded e] assms(3), of False] by blast
  have "v' = v" using v(2) v'(2) by simp
  then have "bin_offset db (unat i) = unat v"
    using v'(1) assms(2) by (simp add: bin_offset_def)
  then show ?thesis using v(1) by simp
qed

lemma bin_offset_mono:
  assumes "index_ok db" "index_ptr db = Some idx"
  shows "c \<le> 4 ^ unat (idx_nt idx) \<Longrightarrow> b \<le> c \<Longrightarrow> bin_offset db b \<le> bin_offset db c"
proof (induction c)
  case 0
  then show ?case by simp
next
  case (Suc c)
  obtain idx' where i: "index_ptr db = Some idx'"
    "\<And>b. b < 4 ^ unat (idx_nt idx') \<Longrightarrow> bin_offset db b \<le> bin_offset db (Suc b)"
    using assms(1) by (rule index_okD) blast
  have e: "idx' = idx" using i(1) assms(2) by simp
  show ?case
  proof (cases "b = Suc c")
    case True
    then show ?thesis by simp
  next
    case False
    then have "b \<le> c" using Suc.prems(2) by simp
    then have "bin_offset db b \<le> bin_offset db c" using Suc.IH Suc.prems(1) by simp
    moreover have "bin_offset db c \<le> bin_offset db (Suc c)"
      using i(2)[unfolded e, of c] Suc.prems(1) by simp
    ultimately show ?thesis by (rule order_trans)
  qed
qed

lemma bin_offset_le_key_ct:
  assumes "index_ok db" "index_ptr db = Some idx" "b \<le> 4 ^ unat (idx_nt idx)"
  shows "bin_offset db b \<le> unat (key_ct db)"
proof -
  obtain idx' where i: "index_ptr db = Some idx'"
    "bin_offset db (4 ^ unat (idx_nt idx')) = unat (key_ct db)"
    using assms(1) by (rule index_okD) blast
  have e: "idx' = idx" using i(1) assms(2) by simp
  show ?thesis
    using bin_offset_mono[OF assms(1,2) order_refl assms(3)] i(2)[unfolded e] by simp
qed

lemma key_ct_small:
  assumes "database_ok db"
  shows "unat (key_ct db) < 2 ^ 62"
proof -
  obtain mem where d: "fptr db = Some mem" "length mem < 2 ^ 64"
    "pair_offset db (unat (key_ct db)) \<le> length mem" "val_len db = 4"
    using assms by (rule database_okD)
  have ps: "unat (pair_size db) = unat (key_len db) + 4"
    using key_len_le_8[OF assms] d(4) unat_add_no_wrap[of "key_len db" 4] by (simp add: pair_size_def)
  have "unat (key_ct db) * 4 \<le> unat (key_ct db) * unat (pair_size db)"
    unfolding ps by (rule mult_le_mono2) simp
  also have "\<dots> \<le> pair_offset db (unat (key_ct db))" unfolding pair_offset_def by (rule le_add2)
  also have "\<dots> \<le> length mem" by (rule d(3))
  also have "\<dots> < 2 ^ 64" by (rule d(2))
  finally have "unat (key_ct db) * 4 < 4 * 2 ^ 62" by simp
  then show ?thesis by (simp only: mult.commute[of _ 4] mult_less_cancel1)
qed

lemma index_range_eq:
  assumes "database_ok db" "index_ok db" "index_ptr db = Some idx"
    "unat b_key < 4 ^ unat (idx_nt idx)"
  shows "index_range testing db b_key
     = Returns (bin_window db (unat b_key))"
proof -
  obtain idx' where i: "index_ptr db = Some idx'" "idx_nt idx' \<le> 15"
    using assms(2) by (rule index_okD) blast
  have e: "idx' = idx" using i(1) assms(3) by simp
  have n: "unat (idx_nt idx) \<le> 15" using i(2)[unfolded e] by (simp add: word_le_nat_alt)
  have s: "unat (b_key + 1) = Suc (unat b_key)" using assms(4) n by (rule unat_Suc_bin)
  obtain lo where lo: "at testing idx b_key = Returns lo" "unat lo = bin_offset db (unat b_key)"
    using at_bin_offset[OF assms(2,3), of b_key testing] assms(4) by auto
  obtain hi where hi: "at testing idx (b_key + 1) = Returns hi"
    "unat hi = bin_offset db (Suc (unat b_key))"
    using at_bin_offset[OF assms(2,3), of "b_key + 1" testing] assms(4) s by auto
  have "unat lo \<le> unat (key_ct db)"
    unfolding lo(2) by (rule bin_offset_le_key_ct[OF assms(2,3)]) (use assms(4) in simp)
  then have l: "sint lo = int (bin_offset db (unat b_key))"
    using key_ct_small[OF assms(1)] lo(2) by (simp add: sint_small)
  have "unat hi \<le> unat (key_ct db)"
    unfolding hi(2) by (rule bin_offset_le_key_ct[OF assms(2,3)]) (use assms(4) in simp)
  then have h: "sint (hi - 1) = int (bin_offset db (Suc (unat b_key))) - 1"
    using key_ct_small[OF assms(1)] hi(2) by (simp add: sint_pred)
  show ?thesis
    using assms(3) lo(1) hi(1) l h by (simp add: index_range_def obind_def bin_window_def)
qed


section \<open>Bins and their windows\<close>

lemma bin_key_ok:
  assumes "index_ok db" "index_ptr db = Some idx"
  shows "\<exists>b_key. bin_key db kmer = Returns b_key \<and> unat b_key = key_bin db kmer
           \<and> unat b_key < 4 ^ unat (idx_nt idx)"
proof -
  obtain idx' where i: "index_ptr db = Some idx'" "1 \<le> idx_nt idx'" "idx_nt idx' \<le> 15"
    "ucast (idx_nt idx') \<le> key_bits db div 2"
    using assms(1) by (rule index_okD) blast
  have e: "idx' = idx" using i(1) assms(2) by simp
  show ?thesis
    using bin_key_Min[OF assms(2) i(2,3,4)[unfolded e], of kmer]
      Min_minimizers_less[OF i(3)[unfolded e]]
    by (simp add: key_bin_def)
qed

lemma key_bin_less:
  assumes "index_ok db" "index_ptr db = Some idx"
  shows "key_bin db kmer < 4 ^ unat (idx_nt idx)"
  using bin_key_ok[OF assms, of kmer] by auto

lemma pairs_okD:
  assumes "pairs_ok db" "i < unat (key_ct db)"
  shows "bin_offset db (key_bin db (stored_key db i)) \<le> i"
    and "i < bin_offset db (Suc (key_bin db (stored_key db i)))"
    and "\<And>j. j < unat (key_ct db) \<Longrightarrow> i < j
           \<Longrightarrow> key_bin db (stored_key db i) = key_bin db (stored_key db j)
           \<Longrightarrow> stored_key db i < stored_key db j"
  using assms by (auto simp add: pairs_ok_def)

text \<open>The bins are disjoint: a pair in the window of bin \<open>b\<close> has a key of bin \<open>b\<close>.\<close>

lemma in_window_bin:
  assumes "index_ok db" "pairs_ok db" "index_ptr db = Some idx" "b < 4 ^ unat (idx_nt idx)"
    "bin_offset db b \<le> i" "i < bin_offset db (Suc b)"
  shows "i < unat (key_ct db)" and "key_bin db (stored_key db i) = b"
proof -
  have "bin_offset db (Suc b) \<le> unat (key_ct db)"
    by (rule bin_offset_le_key_ct[OF assms(1,3)]) (use assms(4) in simp)
  then show k: "i < unat (key_ct db)" using assms(6) by simp
  let ?c = "key_bin db (stored_key db i)"
  have c: "?c < 4 ^ unat (idx_nt idx)" by (rule key_bin_less[OF assms(1,3)])
  have lo: "bin_offset db ?c \<le> i" and hi: "i < bin_offset db (Suc ?c)"
    using pairs_okD(1,2)[OF assms(2) k] by simp_all
  have "\<not> ?c < b"
  proof
    assume "?c < b"
    then have "bin_offset db (Suc ?c) \<le> bin_offset db b"
      using assms(4) by (intro bin_offset_mono[OF assms(1,3)]) simp_all
    then show False using hi assms(5) by simp
  qed
  moreover have "\<not> b < ?c"
  proof
    assume "b < ?c"
    then have "bin_offset db (Suc b) \<le> bin_offset db ?c"
      using c by (intro bin_offset_mono[OF assms(1,3)]) simp_all
    then show False using lo assms(6) by simp
  qed
  ultimately show "?c = b" by simp
qed

lemma window_bounds:
  assumes "index_ok db" "index_ptr db = Some idx" "b < 4 ^ unat (idx_nt idx)"
  shows "0 \<le> fst (bin_window db b)" and "snd (bin_window db b) < int (unat (key_ct db))"
proof -
  show "0 \<le> fst (bin_window db b)" by (simp add: bin_window_def)
  have "bin_offset db (Suc b) \<le> unat (key_ct db)"
    by (rule bin_offset_le_key_ct[OF assms(1,2)]) (use assms(3) in simp)
  then show "snd (bin_window db b) < int (unat (key_ct db))"
    by (simp only: bin_window_def snd_conv)
qed

lemma window_increasing:
  assumes "index_ok db" "pairs_ok db" "index_ptr db = Some idx" "b < 4 ^ unat (idx_nt idx)"
  shows "increasing_on db (fst (bin_window db b)) (snd (bin_window db b))"
  unfolding increasing_on_def
proof (intro allI impI)
  fix i j :: int
  assume h: "fst (bin_window db b) \<le> i \<and> i < j \<and> j \<le> snd (bin_window db b)"
  have i: "bin_offset db b \<le> nat i" "nat i < bin_offset db (Suc b)"
    using h by (simp_all add: bin_window_def) linarith+
  have j: "bin_offset db b \<le> nat j" "nat j < bin_offset db (Suc b)"
    using h by (simp_all add: bin_window_def) linarith+
  have ij: "nat i < nat j" using h i(1) by (simp add: bin_window_def)
  note bi = in_window_bin[OF assms i]
  note bj = in_window_bin[OF assms j]
  show "stored_key db (nat i) < stored_key db (nat j)"
    by (rule pairs_okD(3)[OF assms(2) bi(1) bj(1) ij]) (simp add: bi(2) bj(2))
qed

lemma window_hit:
  assumes "database_ok db" "key_bits db < 64" "index_ok db" "pairs_ok db"
    "index_ptr db = Some idx" "i < unat (key_ct db)"
  shows "hybrid_search db (get_pair_ptr db) (stored_key db i)
            (fst (bin_window db (key_bin db (stored_key db i))))
            (snd (bin_window db (key_bin db (stored_key db i))))
         = Returns (Return (Some (pair_offset db i + unat (key_len db))))"
proof -
  let ?b = "key_bin db (stored_key db i)"
  have b: "?b < 4 ^ unat (idx_nt idx)" by (rule key_bin_less[OF assms(3,5)])
  obtain mem where m: "fptr db = Some mem" using assms(1) by (rule database_okD)
  have lo: "fst (bin_window db ?b) \<le> int i"
    using pairs_okD(1)[OF assms(4,6)] by (simp add: bin_window_def)
  have hi: "int i \<le> snd (bin_window db ?b)"
    using pairs_okD(2)[OF assms(4,6)] by (simp add: bin_window_def)
  have "hybrid_search db (get_pair_ptr db) (stored_key db i)
          (fst (bin_window db ?b)) (snd (bin_window db ?b))
        = Returns (Return (value_ptr db (get_pair_ptr db) (int i)))"
    by (rule hybrid_search_hit[OF assms(1,2) refl window_bounds[OF assms(3,5) b]
          window_increasing[OF assms(3,4,5) b] lo hi]) simp
  then show ?thesis using pair_in_file(4)[OF assms(1) m assms(6)] by simp
qed

lemma window_miss:
  assumes "database_ok db" "key_bits db < 64" "index_ok db" "pairs_ok db"
    "index_ptr db = Some idx" "b < 4 ^ unat (idx_nt idx)"
    "\<And>i. i < unat (key_ct db) \<Longrightarrow> key_bin db (stored_key db i) = b \<Longrightarrow> stored_key db i \<noteq> x"
  shows "hybrid_search db (get_pair_ptr db) x (fst (bin_window db b)) (snd (bin_window db b))
         = Returns (Fallthrough ())"
proof (rule hybrid_search_miss[OF assms(1,2) refl window_bounds[OF assms(3,5,6)]], intro allI impI)
  fix m :: int
  assume h: "fst (bin_window db b) \<le> m \<and> m \<le> snd (bin_window db b)"
  have m: "bin_offset db b \<le> nat m" "nat m < bin_offset db (Suc b)"
    using h by (simp_all add: bin_window_def) linarith+
  note bm = in_window_bin[OF assms(3,4,5,6) m]
  show "stored_key db (nat m) \<noteq> x" using assms(7)[OF bm] .
qed

lemma kmer_query1_window:
  assumes "database_ok db" "index_ok db"
  shows "kmer_query1 testing db x =
     obind (hybrid_search db (get_pair_ptr db) x (fst (bin_window db (key_bin db x)))
              (snd (bin_window db (key_bin db x))))
       (\<lambda>e. case e of Return answer \<Rightarrow> Returns answer | Fallthrough u \<Rightarrow> Returns None)"
proof -
  obtain idx where i: "index_ptr db = Some idx" using assms(2) by (rule index_okD)
  obtain b_key where b: "bin_key db x = Returns b_key" "unat b_key = key_bin db x"
    "unat b_key < 4 ^ unat (idx_nt idx)"
    using bin_key_ok[OF assms(2) i, of x] by blast
  have r: "index_range testing db b_key = Returns (bin_window db (key_bin db x))"
    using index_range_eq[OF assms i b(3), of testing] b(2) by simp
  show ?thesis
    unfolding kmer_query1_eq by (simp add: b(1) r obind_def split_beta)
qed

section \<open>The example databases satisfy the invariants\<close>

lemma S5_database_ok: "database_ok S5_db"
  by (simp add: database_ok_def S5_db_def S5_file_def c_string_def store_le_def pair_offset_def
      header_size_def pair_size_def)

lemma S5_index_ok: "index_ok S5_db"
  by code_simp

lemma S5_keys:
  "stored_key S5_db 0 = 85" "stored_key S5_db 1 = 27" "stored_key S5_db 2 = 0"
  by code_simp+

lemma S5_key_1: "stored_key S5_db (Suc 0) = 27"
  using S5_keys(2) by simp

lemma S5_bins: "key_bin S5_db 85 = 8" "key_bin S5_db 27 = 11" "key_bin S5_db 0 = 13"
  by code_simp+

lemma S5_offsets:
  "bin_offset S5_db 8 = 0" "bin_offset S5_db 9 = 1" "bin_offset S5_db 11 = 1"
  "bin_offset S5_db 12 = 2" "bin_offset S5_db 13 = 2" "bin_offset S5_db 14 = 3"
  by code_simp+

lemma less_3_cases: "i < (3::nat) \<Longrightarrow> i = 0 \<or> i = 1 \<or> i = 2"
  by arith

lemma S5_pairs_ok: "pairs_ok S5_db"
proof -
  have k: "unat (key_ct S5_db) = 3" by (simp add: S5_db_def)
  have "\<And>i. i < 3 \<Longrightarrow>
        bin_offset S5_db (key_bin S5_db (stored_key S5_db i)) \<le> i
        \<and> i < bin_offset S5_db (Suc (key_bin S5_db (stored_key S5_db i)))
        \<and> (\<forall>j \<in> {..<3}.
              i < j \<and> key_bin S5_db (stored_key S5_db i) = key_bin S5_db (stored_key S5_db j)
              \<longrightarrow> stored_key S5_db i < stored_key S5_db j)"
  proof -
    fix i :: nat
    assume "i < 3"
    then consider "i = 0" | "i = 1" | "i = 2" using less_3_cases by blast
    then show "bin_offset S5_db (key_bin S5_db (stored_key S5_db i)) \<le> i
        \<and> i < bin_offset S5_db (Suc (key_bin S5_db (stored_key S5_db i)))
        \<and> (\<forall>j \<in> {..<3}.
              i < j \<and> key_bin S5_db (stored_key S5_db i) = key_bin S5_db (stored_key S5_db j)
              \<longrightarrow> stored_key S5_db i < stored_key S5_db j)"
      by cases (auto simp add: S5_keys S5_key_1 S5_bins S5_offsets dest!: less_3_cases)
  qed
  then show ?thesis unfolding pairs_ok_def k by simp
qed


section \<open>Query round trip\<close>

text \<open>
  For \<open>key_bits < 64\<close>, that is \<open>k \<le> 31\<close>: over a database whose pairs lie in the bins of
  their keys, with the keys of one bin strictly increasing, and whose index delimits the
  bins, the stateless \<^verbatim>\<open>kmer_query\<close> returns, for the key of every pair \<open>i\<close>, the pointer to
  the four bytes of the value of pair \<open>i\<close>, and returns \<^verbatim>\<open>NULL\<close> for every k-mer that is not
  a stored key, in both builds. That the keys are canonical and that \<open>x < 2^key_bits\<close> is
  not needed.
\<close>

theorem kmer_query_round_trip:
  assumes "database_ok db" "index_ok db" "pairs_ok db" "key_bits db < 64"
  shows "(\<forall>i<unat (key_ct db). \<exists>v.
            kmer_query1 testing db (stored_key db i)
              = Returns (Some (pair_offset db i + unat (key_len db)))
            \<and> deref_u32 db (pair_offset db i + unat (key_len db)) = Some v
            \<and> stored_value db i = Some v)
       \<and> ((\<forall>i<unat (key_ct db). stored_key db i \<noteq> x)
            \<longrightarrow> kmer_query1 testing db x = Returns None)"
proof (intro conjI allI impI)
  obtain idx where idx: "index_ptr db = Some idx" using assms(2) by (rule index_okD)
  {
    fix i
    assume i: "i < unat (key_ct db)"
    have q: "kmer_query1 testing db (stored_key db i)
               = Returns (Some (pair_offset db i + unat (key_len db)))"
      unfolding kmer_query1_window[OF assms(1,2)]
        window_hit[OF assms(1,4,2,3) idx i]
      by (simp add: obind_def)
    obtain v where v: "stored_value db i = Some v"
      using stored_value_Some[OF assms(1) i] by blast
    show "\<exists>v. kmer_query1 testing db (stored_key db i)
              = Returns (Some (pair_offset db i + unat (key_len db)))
            \<and> deref_u32 db (pair_offset db i + unat (key_len db)) = Some v
            \<and> stored_value db i = Some v"
      using q v by (simp add: stored_value_def)
  }
  assume a: "\<forall>i<unat (key_ct db). stored_key db i \<noteq> x"
  have "hybrid_search db (get_pair_ptr db) x (fst (bin_window db (key_bin db x)))
          (snd (bin_window db (key_bin db x))) = Returns (Fallthrough ())"
    by (rule window_miss[OF assms(1,4,2,3) idx key_bin_less[OF assms(2) idx]]) (use a in simp)
  then show "kmer_query1 testing db x = Returns None"
    unfolding kmer_query1_window[OF assms(1,2)] by (simp add: obind_def)
qed

theorem kmer_query_round_trip_S5:
  "database_ok S5_db \<and> index_ok S5_db \<and> pairs_ok S5_db \<and> key_bits S5_db < 64
   \<and> stored_key S5_db 1 = 27
   \<and> kmer_query1 False S5_db 27 = Returns (Some 214)
   \<and> deref_u32 S5_db 214 = Some 20
   \<and> stored_value S5_db 1 = Some 20
   \<and> kmer_query1 False S5_db 170 = Returns None"
proof -
  have kb: "key_bits S5_db < 64" by (simp add: S5_db_def)
  have k: "unat (key_ct S5_db) = 3" by (simp add: S5_db_def)
  have p: "pair_offset S5_db 1 + unat (key_len S5_db) = 214"
    by (simp add: pair_offset_def header_size_def pair_size_def S5_db_def)
  have v: "stored_value S5_db 1 = Some 20" by code_simp
  have a: "\<forall>i<unat (key_ct S5_db). stored_key S5_db i \<noteq> 170"
    unfolding k by (auto simp add: S5_keys S5_key_1 dest!: less_3_cases)
  note t = kmer_query_round_trip[OF S5_database_ok S5_index_ok S5_pairs_ok kb, of False 170]
  have "1 < unat (key_ct S5_db)" unfolding k by simp
  from t[THEN conjunct1, rule_format, OF this]
  have h: "kmer_query1 False S5_db 27 = Returns (Some 214) \<and> deref_u32 S5_db 214 = Some 20"
    unfolding p S5_keys(2) v by simp
  have m: "kmer_query1 False S5_db 170 = Returns None"
    using t[THEN conjunct2] a by blast
  show ?thesis
    using S5_database_ok S5_index_ok S5_pairs_ok kb S5_keys(2) h v m by blast
qed

section \<open>Query with retry\<close>

lemma kmer_query_True_invalid:
  assumes "mx < mn"
  shows "kmer_query testing db x (Some b) (Some mn) (Some mx) True =
     obind (bin_key db x) (\<lambda>b_key.
     obind (index_range testing db b_key) (\<lambda>(lo, hi).
     obind (hybrid_search db (get_pair_ptr db) x lo hi) (\<lambda>e.
       case e of Return answer \<Rightarrow> Returns (answer, Some b_key, Some lo, Some hi)
               | Fallthrough u \<Rightarrow> Returns (None, Some b_key, Some lo, Some hi))))"
  using assms
  by (subst kmer_query.simps)
     (auto simp add: window_init_def obind_def split: outcome.splits loop_exit.splits prod.splits)

lemma kmer_query_True_valid:
  assumes "mn \<le> mx"
  shows "kmer_query testing db x (Some b) (Some mn) (Some mx) True =
     obind (hybrid_search db (get_pair_ptr db) x mn mx) (\<lambda>e.
       case e of
         Return answer \<Rightarrow> Returns (answer, Some b, Some mn, Some mx)
       | Fallthrough u \<Rightarrow>
           obind (bin_key db x) (\<lambda>b_key.
             if b_key = b then Returns (None, Some b, Some mn, Some mx)
             else obind (index_range testing db b_key) (\<lambda>(lo, hi).
                    kmer_query testing db x (Some b_key) (Some lo) (Some hi) False)))"
  using assms
  by (subst kmer_query.simps)
     (auto simp add: window_init_def obind_def split: outcome.splits loop_exit.splits prod.splits)

lemma load_comp_kmer_unreadable:
  assumes "64 \<le> key_bits db"
  shows "load_comp_kmer db ptr m \<noteq> Returns v"
  using assms by (simp add: load_comp_kmer_def split: option.splits)

lemma hybrid_search_unreadable:
  assumes "64 \<le> key_bits db" "lo \<le> hi"
  shows "hybrid_search db ptr x lo hi \<noteq> Returns e"
proof (cases "lo + 15 \<le> hi")
  case True
  have "binary_search db ptr x lo hi \<noteq> Returns e'" for e'
    using True load_comp_kmer_unreadable[OF assms(1), of ptr "lo + (hi - lo) div 2"]
    by (subst binary_search.simps) (simp add: Let_def split: outcome.splits)
  then show ?thesis
    by (auto simp add: hybrid_search_def obind_def split: outcome.splits)
next
  case False
  then have b: "binary_search db ptr x lo hi = Returns (Fallthrough (lo, hi))"
    by (subst binary_search.simps) simp
  have "linear_search db ptr x lo hi \<noteq> Returns e"
    using assms(2) load_comp_kmer_unreadable[OF assms(1), of ptr lo]
    by (subst linear_search.simps) (simp split: outcome.splits)
  then show ?thesis by (simp add: hybrid_search_def obind_def b)
qed


text \<open>
  In a state that satisfies \<open>state_inv\<close> the query with retry searches, in the end, the
  window of the bin of its k-mer, and leaves that bin and window in the state.
\<close>

lemma kmer_query_True_window:
  assumes "database_ok db" "index_ok db" "pairs_ok db" "index_ptr db = Some idx"
    "state_inv db (b, mn, mx)"
  shows "\<exists>b_key. bin_key db x = Returns b_key \<and> unat b_key = key_bin db x
     \<and> kmer_query testing db x (Some b) (Some mn) (Some mx) True =
         obind (hybrid_search db (get_pair_ptr db) x (fst (bin_window db (key_bin db x)))
                  (snd (bin_window db (key_bin db x))))
           (\<lambda>e. case e of
              Return answer \<Rightarrow>
                Returns (answer, Some b_key, Some (fst (bin_window db (key_bin db x))),
                         Some (snd (bin_window db (key_bin db x))))
            | Fallthrough u \<Rightarrow>
                Returns (None, Some b_key, Some (fst (bin_window db (key_bin db x))),
                         Some (snd (bin_window db (key_bin db x)))))"
proof -
  let ?w = "bin_window db (key_bin db x)"
  obtain b_key where k: "bin_key db x = Returns b_key" "unat b_key = key_bin db x"
    "unat b_key < 4 ^ unat (idx_nt idx)"
    using bin_key_ok[OF assms(2,4), of x] by blast
  have r: "index_range testing db b_key = Returns ?w"
    using index_range_eq[OF assms(1,2,4) k(3), of testing] k(2) by simp
  have f: "kmer_query testing db x (Some b_key) (Some (fst ?w)) (Some (snd ?w)) False =
         obind (hybrid_search db (get_pair_ptr db) x (fst ?w) (snd ?w))
           (\<lambda>e. case e of
              Return answer \<Rightarrow> Returns (answer, Some b_key, Some (fst ?w), Some (snd ?w))
            | Fallthrough u \<Rightarrow> Returns (None, Some b_key, Some (fst ?w), Some (snd ?w)))"
    unfolding kmer_query_False by (simp add: k(1) r obind_def split_beta)
  have "kmer_query testing db x (Some b) (Some mn) (Some mx) True =
         obind (hybrid_search db (get_pair_ptr db) x (fst ?w) (snd ?w))
           (\<lambda>e. case e of
              Return answer \<Rightarrow> Returns (answer, Some b_key, Some (fst ?w), Some (snd ?w))
            | Fallthrough u \<Rightarrow> Returns (None, Some b_key, Some (fst ?w), Some (snd ?w)))"
  proof (cases "mx < mn")
    case True
    show ?thesis
      unfolding kmer_query_True_invalid[OF True] by (simp add: k(1) r obind_def split_beta)
  next
    case False
    then have v: "mn \<le> mx" by simp
    have s: "key_bits db < 64" "unat b < 4 ^ unat (idx_nt idx)" "(mn, mx) = bin_window db (unat b)"
      using assms(4,5) False by (auto simp add: state_inv_def)
    have mn: "mn = fst (bin_window db (unat b))" and mx: "mx = snd (bin_window db (unat b))"
      using s(3) by (simp_all add: prod_eq_iff)
    show ?thesis
    proof (cases "b_key = b")
      case True
      then have w: "bin_window db (unat b) = ?w" using k(2) by simp
      show ?thesis
        unfolding kmer_query_True_valid[OF v] unfolding mn mx w
        by (simp add: k(1) True obind_def split: outcome.splits loop_exit.splits)
    next
      case False
      then have n: "key_bin db x \<noteq> unat b" using k(2) by (auto dest: unsigned_word_eqI)
      have "hybrid_search db (get_pair_ptr db) x (fst (bin_window db (unat b)))
              (snd (bin_window db (unat b))) = Returns (Fallthrough ())"
      proof (rule window_miss[OF assms(1) s(1) assms(2,3,4) s(2)])
        fix i
        assume "i < unat (key_ct db)" "key_bin db (stored_key db i) = unat b"
        then show "stored_key db i \<noteq> x" using n by auto
      qed
      then have h: "hybrid_search db (get_pair_ptr db) x mn mx = Returns (Fallthrough ())"
        unfolding mn mx .
      show ?thesis
        unfolding kmer_query_True_valid[OF v] h
        by (simp add: k(1) False r obind_def split_beta f)
    qed
  qed
  then show ?thesis using k(1,2) by blast
qed

lemma kmer_query_True_answer:
  assumes "database_ok db" "index_ok db" "pairs_ok db" "state_inv db (b, mn, mx)"
  shows "obind (kmer_query testing db x (Some b) (Some mn) (Some mx) True)
           (\<lambda>(answer, cells). Returns answer) = kmer_query1 testing db x"
proof -
  obtain idx where i: "index_ptr db = Some idx" using assms(2) by (rule index_okD)
  obtain b_key where k: "kmer_query testing db x (Some b) (Some mn) (Some mx) True =
         obind (hybrid_search db (get_pair_ptr db) x (fst (bin_window db (key_bin db x)))
                  (snd (bin_window db (key_bin db x))))
           (\<lambda>e. case e of
              Return answer \<Rightarrow>
                Returns (answer, Some b_key, Some (fst (bin_window db (key_bin db x))),
                         Some (snd (bin_window db (key_bin db x))))
            | Fallthrough u \<Rightarrow>
                Returns (None, Some b_key, Some (fst (bin_window db (key_bin db x))),
                         Some (snd (bin_window db (key_bin db x)))))"
    using kmer_query_True_window[OF assms(1,2,3) i assms(4), of x testing] by blast
  show ?thesis
    unfolding k kmer_query1_window[OF assms(1,2)]
    by (simp add: obind_def split: outcome.splits loop_exit.splits)
qed

lemma kmer_query_True_state:
  assumes "database_ok db" "index_ok db" "pairs_ok db" "state_inv db (b, mn, mx)"
    "kmer_query testing db x (Some b) (Some mn) (Some mx) True
       = Returns (answer, Some b', Some mn', Some mx')"
  shows "state_inv db (b', mn', mx')"
proof -
  let ?w = "bin_window db (key_bin db x)"
  obtain idx where i: "index_ptr db = Some idx" using assms(2) by (rule index_okD)
  obtain b_key where k: "bin_key db x = Returns b_key" "unat b_key = key_bin db x"
     "kmer_query testing db x (Some b) (Some mn) (Some mx) True =
         obind (hybrid_search db (get_pair_ptr db) x (fst ?w) (snd ?w))
           (\<lambda>e. case e of
              Return answer \<Rightarrow> Returns (answer, Some b_key, Some (fst ?w), Some (snd ?w))
            | Fallthrough u \<Rightarrow> Returns (None, Some b_key, Some (fst ?w), Some (snd ?w)))"
    using kmer_query_True_window[OF assms(1,2,3) i assms(4), of x testing] by blast
  have l: "unat b_key < 4 ^ unat (idx_nt idx)"
    using key_bin_less[OF assms(2) i, of x] k(2) by simp
  obtain e where e: "hybrid_search db (get_pair_ptr db) x (fst ?w) (snd ?w) = Returns e"
    using assms(5) unfolding k(3) by (auto simp add: obind_def split: outcome.splits)
  have st: "b' = b_key" "mn' = fst ?w" "mx' = snd ?w"
    using assms(5) unfolding k(3) e by (auto simp add: obind_def split: loop_exit.splits)
  show ?thesis
  proof (cases "key_bits db < 64")
    case True
    then show ?thesis using i l k(2) by (simp add: state_inv_def st split_beta)
  next
    case False
    then have "64 \<le> key_bits db" by simp
    then have "snd ?w < fst ?w"
      using hybrid_search_unreadable[of db "fst ?w" "snd ?w" "get_pair_ptr db" x e] e
      by (cases "fst ?w \<le> snd ?w") simp_all
    then show ?thesis by (simp add: state_inv_def st split_beta)
  qed
qed

lemma reachable_state_inv:
  assumes "database_ok db" "index_ok db" "pairs_ok db" "reachable testing db st"
  shows "state_inv db st"
  using assms(4)
proof (induction rule: reachable.induct)
  case (initial max_pos min_pos last_bin_key)
  then show ?case by (simp add: state_inv_def)
next
  case (query last_bin_key min_pos max_pos kmer answer last_bin_key' min_pos' max_pos')
  show ?case by (rule kmer_query_True_state[OF assms(1,2,3) query.IH query.hyps(2)])
qed

lemma kmer_query1_returns:
  assumes "database_ok db" "index_ok db" "pairs_ok db" "key_bits db < 64"
  shows "\<exists>answer. kmer_query1 testing db x = Returns answer"
proof -
  obtain idx where idx: "index_ptr db = Some idx" using assms(2) by (rule index_okD)
  show ?thesis
  proof (cases "\<exists>i<unat (key_ct db). stored_key db i = x")
    case True
    then obtain i where i: "i < unat (key_ct db)" "stored_key db i = x" by blast
    show ?thesis
      unfolding kmer_query1_window[OF assms(1,2)]
      using window_hit[OF assms(1,4,2,3) idx i(1)] by (simp add: obind_def i(2))
  next
    case False
    have "hybrid_search db (get_pair_ptr db) x (fst (bin_window db (key_bin db x)))
          (snd (bin_window db (key_bin db x))) = Returns (Fallthrough ())"
      by (rule window_miss[OF assms(1,4,2,3) idx key_bin_less[OF assms(2) idx]]) (use False in auto)
    then show ?thesis
      unfolding kmer_query1_window[OF assms(1,2)] by (simp add: obind_def)
  qed
qed

section \<open>The query on x86-64 where the shift is defined\<close>

declare binary_search_x86.simps [simp del]
declare linear_search_x86.simps [simp del]
declare kmer_query_x86.simps [simp del]

lemma load_comp_kmer_x86_eq:
  assumes "key_bits db < 64"
  shows "load_comp_kmer_x86 db ptr mid = load_comp_kmer db ptr mid"
proof -
  have "unat (key_bits db) < 64" using assms by (simp add: word_less_nat_alt)
  then have m: "unat (key_bits db) mod 64 = unat (key_bits db)" by simp
  have n: "\<not> 64 \<le> key_bits db" using assms by simp
  show ?thesis
    unfolding load_comp_kmer_x86_def load_comp_kmer_def m using n
    by (simp split: option.splits)
qed

lemma binary_search_x86_eq:
  assumes "key_bits db < 64"
  shows "binary_search_x86 db ptr x lo hi = binary_search db ptr x lo hi"
proof (induction "nat (hi - lo)" arbitrary: lo hi rule: less_induct)
  case less
  show ?case
  proof (cases "lo + 15 \<le> hi")
    case True
    let ?mid = "lo + (hi - lo) div 2"
    have u: "binary_search_x86 db ptr x (?mid + 1) hi = binary_search db ptr x (?mid + 1) hi"
      by (rule less) (use True in simp)
    have d: "binary_search_x86 db ptr x lo (?mid - 1) = binary_search db ptr x lo (?mid - 1)"
      by (rule less) (use True in simp)
    show ?thesis
      by (subst binary_search_x86.simps, subst binary_search.simps)
         (simp add: Let_def load_comp_kmer_x86_eq[OF assms] u d split: outcome.splits)
  next
    case False
    then show ?thesis
      by (subst binary_search_x86.simps, subst binary_search.simps) simp
  qed
qed

lemma linear_search_x86_eq:
  assumes "key_bits db < 64"
  shows "linear_search_x86 db ptr x lo hi = linear_search db ptr x lo hi"
proof (induction "nat (hi + 1 - lo)" arbitrary: lo rule: less_induct)
  case less
  show ?case
  proof (cases "lo \<le> hi")
    case True
    have u: "linear_search_x86 db ptr x (lo + 1) hi = linear_search db ptr x (lo + 1) hi"
      by (rule less) (use True in simp)
    show ?thesis
      by (subst linear_search_x86.simps, subst linear_search.simps)
         (simp add: load_comp_kmer_x86_eq[OF assms] u split: outcome.splits)
  next
    case False
    then show ?thesis
      by (subst linear_search_x86.simps, subst linear_search.simps) simp
  qed
qed

lemma hybrid_search_x86_eq:
  assumes "key_bits db < 64"
  shows "hybrid_search_x86 db ptr x lo hi = hybrid_search db ptr x lo hi"
  unfolding hybrid_search_x86_def hybrid_search_def
    binary_search_x86_eq[OF assms] linear_search_x86_eq[OF assms]
  by (rule refl)

lemma kmer_query_x86_eq:
  assumes "key_bits db < 64"
  shows "kmer_query_x86 testing db x l mn mx retry = kmer_query testing db x l mn mx retry"
proof -
  have f: "kmer_query_x86 testing db x l' mn' mx' False = kmer_query testing db x l' mn' mx' False"
    for l' mn' mx'
    apply (subst kmer_query_x86.simps)
    apply (subst kmer_query.simps)
    apply (unfold hybrid_search_x86_eq[OF assms] if_False)
    apply (rule refl)
    done
  show ?thesis
    apply (subst kmer_query_x86.simps)
    apply (subst kmer_query.simps)
    apply (unfold hybrid_search_x86_eq[OF assms] f)
    apply (rule refl)
    done
qed

lemma kmer_query1_x86_eq:
  assumes "key_bits db < 64"
  shows "kmer_query1_x86 testing db x = kmer_query1 testing db x"
  unfolding kmer_query1_x86_def kmer_query1_def kmer_query_x86_eq[OF assms] by (rule refl)


section \<open>The query at \<open>k = 32\<close>\<close>

lemma K32_database_ok: "database_ok K32_db"
  by (simp add: database_ok_def K32_db_def K32_file_def c_string_def store_le_def pair_offset_def
      header_size_def pair_size_def)

lemma K32_index_ok: "index_ok K32_db"
  by code_simp

lemma K32_facts:
  "stored_key K32_db 0 = 3" "key_bin K32_db 3 = 1" "bin_offset K32_db 1 = 0"
  "bin_offset K32_db 2 = 1"
  by code_simp+

lemma K32_pairs_ok: "pairs_ok K32_db"
proof -
  have k: "unat (key_ct K32_db) = 1" by (simp add: K32_db_def)
  have s: "bin_offset K32_db (Suc 1) = 1" using K32_facts(4) by (simp add: numeral_2_eq_2)
  have "bin_offset K32_db (key_bin K32_db (stored_key K32_db 0)) \<le> 0
        \<and> 0 < bin_offset K32_db (Suc (key_bin K32_db (stored_key K32_db 0)))"
    unfolding K32_facts(1,2,3) s by simp
  then show ?thesis unfolding pairs_ok_def k by auto
qed

lemma K32_value: "stored_value K32_db 0 = Some 10"
  by code_simp

lemma K32_query: "kmer_query1 False K32_db 3 = Undefined ShiftWidth"
  by code_simp

lemma K32_query_x86: "kmer_query1_x86 False K32_db 3 = Returns None"
  by code_simp

text \<open>
  C1. Over a database that satisfies the invariants the stateless \<^verbatim>\<open>kmer_query\<close> should
  return the value of every stored key. The database of the one 32-mer \<^verbatim>\<open>AA...AT\<close>
  (\<open>key_bits = 64\<close>) satisfies them, and the query for its key does not: the trim
  \<^verbatim>\<open>(1ull << key_bits) - 1\<close> of the key read from the file shifts by 64, which is
  undefined, and with the shift of x86-64 the mask is 0, every key read compares as 0,
  and \<^verbatim>\<open>kmer_query\<close> returns \<^verbatim>\<open>NULL\<close>.
\<close>

theorem kmer_query_k32_stored_key:
  "database_ok K32_db \<and> index_ok K32_db \<and> pairs_ok K32_db \<and> key_bits K32_db = 64
   \<and> stored_key K32_db 0 = 3 \<and> stored_value K32_db 0 = Some 10
   \<and> kmer_query1 False K32_db 3 = Undefined ShiftWidth
   \<and> kmer_query1_x86 False K32_db 3 = Returns None"
proof -
  have "key_bits K32_db = 64" by (simp add: K32_db_def)
  then show ?thesis
    using K32_database_ok K32_index_ok K32_pairs_ok K32_facts(1) K32_value K32_query
      K32_query_x86
    by blast
qed

theorem kmer_query_k32_stored_key_witness:
  "database_ok K32_db \<and> stored_key K32_db 0 = 3 \<and> stored_value K32_db 0 = Some 10
   \<and> kmer_query1_x86 False K32_db 3 = Returns None"
  using kmer_query_k32_stored_key by blast

lemma D32_database_ok: "database_ok D32_db"
  by (simp add: database_ok_def D32_db_def D32_file_def c_string_def store_le_def pair_offset_def
      header_size_def pair_size_def)

lemma D32_index_ok: "index_ok D32_db"
  by code_simp

lemma D32_facts:
  "stored_key D32_db 0 = 1" "stored_key D32_db 1 = 0"
  "key_bin D32_db 1 = 0" "key_bin D32_db 0 = 1"
  "bin_offset D32_db 0 = 0" "bin_offset D32_db 1 = 1" "bin_offset D32_db 2 = 2"
  by code_simp+

lemma less_2_cases: "i < (2::nat) \<Longrightarrow> i = 0 \<or> i = 1"
  by arith

lemma D32_pairs_ok: "pairs_ok D32_db"
proof -
  have k: "unat (key_ct D32_db) = 2" by (simp add: D32_db_def)
  have k1: "stored_key D32_db (Suc 0) = 0" using D32_facts(2) by simp
  have b: "bin_offset D32_db (Suc 0) = Suc 0" "bin_offset D32_db (Suc (Suc 0)) = 2"
    using D32_facts(6,7) by (simp_all add: numeral_2_eq_2)
  have "\<And>i. i < 2 \<Longrightarrow>
        bin_offset D32_db (key_bin D32_db (stored_key D32_db i)) \<le> i
        \<and> i < bin_offset D32_db (Suc (key_bin D32_db (stored_key D32_db i)))
        \<and> (\<forall>j \<in> {..<2}.
              i < j \<and> key_bin D32_db (stored_key D32_db i) = key_bin D32_db (stored_key D32_db j)
              \<longrightarrow> stored_key D32_db i < stored_key D32_db j)"
  proof -
    fix i :: nat
    assume "i < 2"
    then consider "i = 0" | "i = 1" using less_2_cases by blast
    then show "bin_offset D32_db (key_bin D32_db (stored_key D32_db i)) \<le> i
        \<and> i < bin_offset D32_db (Suc (key_bin D32_db (stored_key D32_db i)))
        \<and> (\<forall>j \<in> {..<2}.
              i < j \<and> key_bin D32_db (stored_key D32_db i) = key_bin D32_db (stored_key D32_db j)
              \<longrightarrow> stored_key D32_db i < stored_key D32_db j)"
      by cases (auto simp add: D32_facts k1 b dest!: less_2_cases)
  qed
  then show ?thesis unfolding pairs_ok_def k by simp
qed

lemma D32_values: "deref_u32 D32_db 1112 = Some 20" "deref_u32 D32_db 1124 = Some 10"
  "stored_value D32_db 0 = Some 20" "stored_value D32_db 1 = Some 10"
  by code_simp+

lemma D32_queries:
  "kmer_query False D32_db 1 (Some 0) (Some 0) (Some (- 1)) True = Undefined ShiftWidth"
  "kmer_query1 False D32_db 0 = Undefined ShiftWidth"
  by code_simp+

lemma D32_queries_x86:
  "kmer_query_x86 False D32_db 1 (Some 0) (Some 0) (Some (- 1)) True
     = Returns (None, Some 0, Some 0, Some 0)"
  "kmer_query_x86 False D32_db 0 (Some 0) (Some 0) (Some 0) True
     = Returns (Some 1112, Some 0, Some 0, Some 0)"
  "kmer_query1_x86 False D32_db 0 = Returns (Some 1124)"
  by code_simp+


text \<open>
  C2. From every state that is initial or was left by earlier queries with retry,
  \<^verbatim>\<open>kmer_query(x, &last_bin_key, &min_pos, &max_pos, true)\<close> should return what the
  stateless \<^verbatim>\<open>kmer_query(x)\<close> returns. On the database of the two 32-mers \<^verbatim>\<open>AA...AC\<close> and
  \<^verbatim>\<open>AA...AA\<close> (\<open>key_bits = 64\<close>), which satisfies the invariants, every read of a key
  shifts by 64 and is undefined. With the shift of x86-64 every key read compares as 0:
  from the initial state \<open>(0, 0, -1)\<close> the query with retry for \<^verbatim>\<open>AA...AC\<close> misses and leaves
  the window of bin 0 in the state; from that state the query with retry for \<^verbatim>\<open>AA...AA\<close>
  returns the value of pair 0 (taxon 20), the stateless query that of pair 1 (taxon 10).
\<close>

theorem kmer_query_k32_retry_differs:
  "database_ok D32_db \<and> index_ok D32_db \<and> pairs_ok D32_db \<and> key_bits D32_db = 64
   \<and> stored_key D32_db 0 = 1 \<and> stored_key D32_db 1 = 0
   \<and> kmer_query False D32_db 1 (Some 0) (Some 0) (Some (- 1)) True = Undefined ShiftWidth
   \<and> kmer_query1 False D32_db 0 = Undefined ShiftWidth
   \<and> kmer_query_x86 False D32_db 1 (Some 0) (Some 0) (Some (- 1)) True
        = Returns (None, Some 0, Some 0, Some 0)
   \<and> kmer_query_x86 False D32_db 0 (Some 0) (Some 0) (Some 0) True
        = Returns (Some 1112, Some 0, Some 0, Some 0)
   \<and> kmer_query1_x86 False D32_db 0 = Returns (Some 1124)
   \<and> deref_u32 D32_db 1112 = Some 20 \<and> deref_u32 D32_db 1124 = Some 10"
proof -
  have "key_bits D32_db = 64" by (simp add: D32_db_def)
  then show ?thesis
    using D32_database_ok D32_index_ok D32_pairs_ok D32_facts(1,2) D32_queries D32_queries_x86
      D32_values(1,2)
    by blast
qed

theorem kmer_query_k32_retry_differs_witness:
  "database_ok D32_db
   \<and> kmer_query_x86 False D32_db 0 (Some 0) (Some 0) (Some 0) True
        = Returns (Some 1112, Some 0, Some 0, Some 0)
   \<and> kmer_query1_x86 False D32_db 0 = Returns (Some 1124)"
  using kmer_query_k32_retry_differs by blast

section \<open>Query with retry for \<open>k \<le> 31\<close>\<close>

lemma window_search_returns:
  assumes "database_ok db" "index_ok db" "pairs_ok db" "key_bits db < 64"
  shows "\<exists>e. hybrid_search db (get_pair_ptr db) x (fst (bin_window db (key_bin db x)))
          (snd (bin_window db (key_bin db x))) = Returns e"
proof -
  obtain idx where idx: "index_ptr db = Some idx" using assms(2) by (rule index_okD)
  show ?thesis
  proof (cases "\<exists>i<unat (key_ct db). stored_key db i = x")
    case True
    then obtain i where i: "i < unat (key_ct db)" "stored_key db i = x" by blast
    show ?thesis
      using window_hit[OF assms(1,4,2,3) idx i(1)] by (simp add: i(2))
  next
    case False
    have "hybrid_search db (get_pair_ptr db) x (fst (bin_window db (key_bin db x)))
          (snd (bin_window db (key_bin db x))) = Returns (Fallthrough ())"
      by (rule window_miss[OF assms(1,4,2,3) idx key_bin_less[OF assms(2) idx]]) (use False in auto)
    then show ?thesis by simp
  qed
qed

text \<open>
  For \<open>key_bits < 64\<close>, that is \<open>k \<le> 31\<close>: over a database and index that satisfy the
  invariants, from every state \<open>(last_bin_key, min_pos, max_pos)\<close> that is initial
  (\<open>min_pos > max_pos\<close>) or was left by earlier queries with retry, the query with retry
  and the stateless query both return, and return the same pointer or \<^verbatim>\<open>NULL\<close>, for every
  k-mer \<open>x\<close>.
\<close>

theorem kmer_query_retry_agrees:
  assumes "database_ok db" "index_ok db" "pairs_ok db" "key_bits db < 64"
    "reachable testing db (last_bin_key, min_pos, max_pos)"
  shows "\<exists>answer b' mn' mx'.
           kmer_query1 testing db x = Returns answer
         \<and> kmer_query testing db x (Some last_bin_key) (Some min_pos) (Some max_pos) True
             = Returns (answer, Some b', Some mn', Some mx')"
proof -
  let ?w = "bin_window db (key_bin db x)"
  obtain idx where i: "index_ptr db = Some idx" using assms(2) by (rule index_okD)
  have s: "state_inv db (last_bin_key, min_pos, max_pos)"
    by (rule reachable_state_inv[OF assms(1,2,3,5)])
  obtain b_key where k:
     "kmer_query testing db x (Some last_bin_key) (Some min_pos) (Some max_pos) True =
         obind (hybrid_search db (get_pair_ptr db) x (fst ?w) (snd ?w))
           (\<lambda>e. case e of
              Return answer \<Rightarrow> Returns (answer, Some b_key, Some (fst ?w), Some (snd ?w))
            | Fallthrough u \<Rightarrow> Returns (None, Some b_key, Some (fst ?w), Some (snd ?w)))"
    using kmer_query_True_window[OF assms(1,2,3) i s, of x testing] by blast
  obtain e where e: "hybrid_search db (get_pair_ptr db) x (fst ?w) (snd ?w) = Returns e"
    using window_search_returns[OF assms(1,2,3,4), of x] by blast
  show ?thesis
    unfolding k kmer_query1_window[OF assms(1,2)] e
    by (cases e) (simp_all add: obind_def)
qed

theorem kmer_query_retry_agrees_S5:
  "database_ok S5_db \<and> index_ok S5_db \<and> pairs_ok S5_db \<and> key_bits S5_db < 64
   \<and> reachable False S5_db (11, 1, 1)
   \<and> kmer_query False S5_db 85 (Some 11) (Some 1) (Some 1) True
        = Returns (Some 209, Some 8, Some 0, Some 0)
   \<and> kmer_query1 False S5_db 85 = Returns (Some 209)"
proof -
  have kb: "key_bits S5_db < 64" by (simp add: S5_db_def)
  have i: "reachable False S5_db (0, 0, - 1)" by (rule reachable.initial) simp
  have q: "kmer_query False S5_db 27 (Some 0) (Some 0) (Some (- 1)) True
             = Returns (Some 214, Some 11, Some 1, Some 1)"
    by code_simp
  have r: "reachable False S5_db (11, 1, 1)" by (rule reachable.query[OF i q])
  have e: "kmer_query False S5_db 85 (Some 11) (Some 1) (Some 1) True
             = Returns (Some 209, Some 8, Some 0, Some 0)"
    by code_simp
  obtain answer b' mn' mx' where t: "kmer_query1 False S5_db 85 = Returns answer"
    "kmer_query False S5_db 85 (Some 11) (Some 1) (Some 1) True
       = Returns (answer, Some b', Some mn', Some mx')"
    using kmer_query_retry_agrees[OF S5_database_ok S5_index_ok S5_pairs_ok kb r, of 85] by blast
  have "answer = Some 209" using t(2) e by simp
  then show ?thesis
    using S5_database_ok S5_index_ok S5_pairs_ok kb r e t(1) by blast
qed

end
